theory Spec2Isabelle
  imports Main "HOL-Library.Sublist"
begin

section \<open>Strings as Python sees them\<close>

text \<open>
  A Python \<open>str\<close> is a sequence of code points; the model is a \<open>string\<close> with one
  \<open>char\<close> per code point, which covers the code points below 256. The character
  classes below are Python's own on that range: \<open>str.isspace\<close> (used by \<open>strip\<close> and by
  the regular expression class \<open>\s\<close>), the word characters of \<open>\w\<close> and \<open>\b\<close>, and
  \<open>str.lower\<close>.
\<close>

definition is_space :: "char \<Rightarrow> bool" where
  "is_space c =
     (let k = (of_char c :: nat)
      in (9 \<le> k \<and> k \<le> 13) \<or> (28 \<le> k \<and> k \<le> 32) \<or> k = 133 \<or> k = 160)"

definition is_word :: "char \<Rightarrow> bool" where
  "is_word c =
     (let k = (of_char c :: nat)
      in (48 \<le> k \<and> k \<le> 57) \<or> (65 \<le> k \<and> k \<le> 90) \<or> (97 \<le> k \<and> k \<le> 122) \<or> k = 95
         \<or> k = 170 \<or> k = 178 \<or> k = 179 \<or> k = 181 \<or> k = 185 \<or> k = 186
         \<or> (188 \<le> k \<and> k \<le> 190) \<or> (192 \<le> k \<and> k \<le> 214)
         \<or> (216 \<le> k \<and> k \<le> 246) \<or> (248 \<le> k \<and> k \<le> 255))"

definition char_lower :: "char \<Rightarrow> char" where
  "char_lower c =
     (let k = (of_char c :: nat)
      in if (65 \<le> k \<and> k \<le> 90) \<or> (192 \<le> k \<and> k \<le> 214) \<or> (216 \<le> k \<and> k \<le> 222)
         then char_of (k + 32) else c)"

definition lower :: "string \<Rightarrow> string" where
  "lower s = map char_lower s"

definition strip :: "string \<Rightarrow> string" where
  "strip s = rev (dropWhile is_space (rev (dropWhile is_space s)))"

text \<open>\<open>sub in s\<close> on strings: \<open>sub\<close> occurs in \<open>s\<close> as a contiguous run.\<close>

definition str_in :: "string \<Rightarrow> string \<Rightarrow> bool" where
  "str_in sub s = sublist sub s"

text \<open>\<open>sep.join(xs)\<close>.\<close>

fun join :: "string \<Rightarrow> string list \<Rightarrow> string" where
  "join sep [] = []"
| "join sep [x] = x"
| "join sep (x # y # ys) = x @ sep @ join sep (y # ys)"

text \<open>
  The slice \<open>s[a:b]\<close>: a negative index counts from the end, and both indices are
  clamped to the string.
\<close>

definition clamp_index :: "int \<Rightarrow> int \<Rightarrow> int" where
  "clamp_index n i = (if i < 0 then max 0 (i + n) else min i n)"

definition py_slice :: "string \<Rightarrow> int \<Rightarrow> int \<Rightarrow> string" where
  "py_slice s a b =
     (let n = int (length s); lo = clamp_index n a; hi = clamp_index n b
      in take (nat (hi - lo)) (drop (nat lo) s))"

section \<open>Regular expressions with backtracking\<close>

text \<open>
  The patterns of \<open>utils.py\<close> are built from the constructors below. \<open>ends r s i\<close> lists
  the positions where a match of \<open>r\<close> that starts at \<open>i\<close> can end, in the order in which a
  backtracking matcher tries them: a greedy repetition tries the longest run first, an
  alternation its left branch first. \<open>re_search\<close> takes the leftmost start that has a match
  and, there, the first end.
\<close>

datatype rx =
    Eps
  | Ch "char \<Rightarrow> bool"
  | Seq rx rx
  | Alt rx rx
  | Opt rx
  | Star "char \<Rightarrow> bool"
  | Plus "char \<Rightarrow> bool"
  | WordB
  | Dollar

definition run :: "(char \<Rightarrow> bool) \<Rightarrow> string \<Rightarrow> nat \<Rightarrow> nat" where
  "run p s i = length (takeWhile p (drop i s))"

definition word_at :: "string \<Rightarrow> nat \<Rightarrow> bool" where
  "word_at s i = (i < length s \<and> is_word (s ! i))"

definition word_boundary :: "string \<Rightarrow> nat \<Rightarrow> bool" where
  "word_boundary s i = ((0 < i \<and> word_at s (i - 1)) \<noteq> word_at s i)"

fun ends :: "rx \<Rightarrow> string \<Rightarrow> nat \<Rightarrow> nat list" where
  "ends Eps s i = [i]"
| "ends (Ch p) s i = (if i < length s \<and> p (s ! i) then [Suc i] else [])"
| "ends (Seq a b) s i = concat (map (ends b s) (ends a s i))"
| "ends (Alt a b) s i = ends a s i @ ends b s i"
| "ends (Opt a) s i = ends a s i @ [i]"
| "ends (Star p) s i = map (\<lambda>k. i + k) (rev [0..<Suc (run p s i)])"
| "ends (Plus p) s i = map (\<lambda>k. i + k) (rev [1..<Suc (run p s i)])"
| "ends WordB s i = (if word_boundary s i then [i] else [])"
| "ends Dollar s i =
     (if i = length s \<or> (Suc i = length s \<and> s ! i = CHR 0x0A) then [i] else [])"

definition re_search :: "rx \<Rightarrow> string \<Rightarrow> (nat \<times> nat) option" where
  "re_search r s =
     map_option (\<lambda>i. (i, hd (ends r s i)))
       (find (\<lambda>i. ends r s i \<noteq> []) [0..<Suc (length s)])"

text \<open>A literal word, and the sequence of a list of patterns.\<close>

definition lit :: "string \<Rightarrow> rx" where
  "lit w = foldr (\<lambda>c r. Seq (Ch (\<lambda>x. x = c)) r) w Eps"

definition seqs :: "rx list \<Rightarrow> rx" where
  "seqs rs = foldr Seq rs Eps"

fun alts :: "rx list \<Rightarrow> rx" where
  "alts [] = Ch (\<lambda>c. False)"
| "alts [r] = r"
| "alts (r # rs) = Alt r (alts rs)"

section \<open>The chunker: \<open>char_chunk_text\<close>\<close>

definition CHUNK_MIN :: int where "CHUNK_MIN = 800"
definition CHUNK_MAX :: int where "CHUNK_MAX = 1200"
definition CHUNK_OVERLAP :: int where "CHUNK_OVERLAP = 200"

text \<open>The pattern \<^verbatim>\<open>[.!?]\s+[^\S\n]*$\<close>.\<close>

definition sentence_break :: rx where
  "sentence_break =
     Seq (Ch (\<lambda>c. c = CHR ''.'' \<or> c = CHR ''!'' \<or> c = CHR ''?''))
       (Seq (Plus is_space)
         (Seq (Star (\<lambda>c. is_space c \<and> c \<noteq> CHR 0x0A)) Dollar))"

text \<open>
  One pass through the loop body up to \<open>chunks.append\<close>: the window, the search for a
  sentence break, and the resulting \<open>end\<close> and \<open>chunk\<close>.
\<close>

definition chunk_cut :: "string \<Rightarrow> int \<Rightarrow> int \<Rightarrow> int \<Rightarrow> int \<times> string" where
  "chunk_cut text chunk_min chunk_max start =
     (let n = int (length text);
          end = min (start + chunk_max) n;
          window = py_slice text start end
      in case re_search sentence_break window of
           Some (m_start, m_end) \<Rightarrow>
             if chunk_min \<le> int (length window)
             then (start + int m_end, py_slice text start (start + int m_end))
             else (end, window)
         | None \<Rightarrow> (end, window))"

text \<open>
  The \<open>while start < n\<close> loop. It need not return (with \<open>overlap \<ge> chunk_max\<close> the start
  position can stay where it is), so not returning is the value \<open>None\<close>.
\<close>

partial_function (option) chunk_loop ::
  "string \<Rightarrow> int \<Rightarrow> int \<Rightarrow> int \<Rightarrow> int \<Rightarrow> string list \<Rightarrow> string list option" where
  "chunk_loop text chunk_min chunk_max overlap start chunks =
     (if start < int (length text) then
        (case chunk_cut text chunk_min chunk_max start of
           (end, chunk) \<Rightarrow>
             if int (length text) \<le> end then Some (chunks @ [chunk])
             else chunk_loop text chunk_min chunk_max overlap
                    (max 0 (end - overlap)) (chunks @ [chunk]))
      else Some chunks)"

declare chunk_loop.simps [code]

definition char_chunk_text :: "string \<Rightarrow> int \<Rightarrow> int \<Rightarrow> int \<Rightarrow> string list option" where
  "char_chunk_text text chunk_min chunk_max overlap =
     map_option (\<lambda>chunks. map strip (filter (\<lambda>c. strip c \<noteq> []) chunks))
       (chunk_loop (strip text) chunk_min chunk_max overlap 0 [])"

text \<open>
  The test of the loop body, \<open>if m and (len(window) >= chunk_min)\<close>, for the pass that
  starts at \<open>start\<close>: the pattern matches the window and the window has at least
  \<open>chunk_min\<close> characters.
\<close>

definition sentence_break_found :: "string \<Rightarrow> int \<Rightarrow> int \<Rightarrow> int \<Rightarrow> bool" where
  "sentence_break_found text chunk_min chunk_max start =
     (let n = int (length text);
          end = min (start + chunk_max) n;
          window = py_slice text start end
      in re_search sentence_break window \<noteq> None \<and> chunk_min \<le> int (length window))"

text \<open>
  The value that one pass gives to \<open>start\<close> for the next, and the start of the \<open>k\<close>-th pass,
  the first one starting at 0.
\<close>

definition next_start :: "string \<Rightarrow> int \<Rightarrow> int \<Rightarrow> int \<Rightarrow> int \<Rightarrow> int" where
  "next_start text chunk_min chunk_max overlap start =
     max 0 (fst (chunk_cut text chunk_min chunk_max start) - overlap)"

definition pass_start :: "string \<Rightarrow> int \<Rightarrow> int \<Rightarrow> int \<Rightarrow> nat \<Rightarrow> int" where
  "pass_start text chunk_min chunk_max overlap k =
     (next_start text chunk_min chunk_max overlap ^^ k) 0"

section \<open>Metadata and citation tags\<close>

text \<open>
  A metadata dictionary maps string keys to values that are strings or integers.
  \<open>dict_get m k d\<close> is \<open>m.get(k, d)\<close>, and \<open>m k\<close> alone is \<open>m.get(k)\<close> with \<open>None\<close> for a
  missing key.
\<close>

datatype pyval = PStr string | PInt int

type_synonym meta = "string \<rightharpoonup> pyval"

definition dict_get :: "('k \<rightharpoonup> 'v) \<Rightarrow> 'k \<Rightarrow> 'v \<Rightarrow> 'v" where
  "dict_get m k d = (case m k of None \<Rightarrow> d | Some v \<Rightarrow> v)"

text \<open>An exception: its class and the text that \<open>str(e)\<close> gives.\<close>

datatype error =
    RuntimeError string
  | ValueError string
  | TypeError string
  | KeyError string
  | OSError string
  | OtherException string

fun err_str :: "error \<Rightarrow> string" where
  "err_str (RuntimeError m) = m"
| "err_str (ValueError m) = m"
| "err_str (TypeError m) = m"
| "err_str (KeyError m) = m"
| "err_str (OSError m) = m"
| "err_str (OtherException m) = m"

text \<open>\<open>str(i)\<close> of an integer: decimal digits, with a minus sign below zero.\<close>

definition digit_char :: "nat \<Rightarrow> char" where
  "digit_char d = char_of (48 + d)"

function str_nat :: "nat \<Rightarrow> string" where
  "str_nat n = (if n < 10 then [digit_char n] else str_nat (n div 10) @ [digit_char (n mod 10)])"
  by pat_completeness auto
termination
  by (relation "measure id") auto

definition str_int :: "int \<Rightarrow> string" where
  "str_int i = (if i < 0 then CHR ''-'' # str_nat (nat (- i)) else str_nat (nat i))"

text \<open>How a value is rendered in an f-string.\<close>

fun py_str :: "pyval \<Rightarrow> string" where
  "py_str (PStr s) = s"
| "py_str (PInt i) = str_int i"

text \<open>\<open>os.path.basename\<close> on a POSIX path: what follows the last slash.\<close>

definition basename :: "string \<Rightarrow> string" where
  "basename p = rev (takeWhile (\<lambda>c. c \<noteq> CHR ''/'') (rev p))"

text \<open>
  \<open>build_chunk_metadata\<close>. The source comes from \<open>meta.get("source", "unknown")\<close>, so it
  is any value; \<open>os.path.basename\<close> raises \<open>TypeError\<close> on an integer.
\<close>

definition build_chunk_metadata :: "pyval \<Rightarrow> pyval option \<Rightarrow> int \<Rightarrow> error + meta" where
  "build_chunk_metadata source page chunk_id =
     (case source of
        PInt i \<Rightarrow> Inl (TypeError ''expected str, bytes or os.PathLike object, not int'')
      | PStr src \<Rightarrow>
          (let meta = [''source'' \<mapsto> PStr (basename src),
                       ''chunk_id'' \<mapsto> PStr (''chunk_'' @ str_int chunk_id)]
           in case page of
                Some p \<Rightarrow> Inr (meta(''page'' \<mapsto> p))
              | None \<Rightarrow> Inr meta))"

definition format_citation :: "meta \<Rightarrow> string" where
  "format_citation meta =
     (let source = dict_get meta ''source'' (PStr ''unknown'');
          page = meta ''page'';
          chunk_id = dict_get meta ''chunk_id'' (PStr ''chunk_?'')
      in case page of
           Some p \<Rightarrow> ''['' @ py_str source @ '' p.'' @ py_str p @ '' '' @ py_str chunk_id @ '']''
         | None \<Rightarrow> ''['' @ py_str source @ '' '' @ py_str chunk_id @ '']'')"

text \<open>The loop of \<open>join_citations\<close>, with its two variables \<open>uniq\<close> and \<open>seen\<close>.\<close>

fun join_citations_loop :: "meta list \<Rightarrow> string list \<Rightarrow> string set \<Rightarrow> string list" where
  "join_citations_loop [] uniq seen = uniq"
| "join_citations_loop (m # ms) uniq seen =
     (let c = format_citation m
      in if c \<notin> seen then join_citations_loop ms (uniq @ [c]) (insert c seen)
         else join_citations_loop ms uniq seen)"

definition join_citations :: "meta list \<Rightarrow> string" where
  "join_citations metadatas = join '' '' (join_citations_loop metadatas [] {})"

text \<open>
  What the data model asks of the tags, in its own words: duplicates removed by string
  equality, each tag at the place of its first occurrence.
\<close>

definition dedup_first :: "string list \<Rightarrow> string list" where
  "dedup_first cs = rev (remdups (rev cs))"

section \<open>Ingestion: \<open>ingestion.py\<close>\<close>

text \<open>
  A parsed record and a chunk are dictionaries with the keys \<open>text\<close> and \<open>metadata\<close>;
  \<open>chunk_records\<close> reads a record with \<open>rec.get("text", "")\<close> and
  \<open>rec.get("metadata", {})\<close>, so either key of a record may be missing.
\<close>

record pyrec =
  rec_text :: "string option"
  rec_metadata :: "meta option"

record chunk =
  chunk_text :: string
  chunk_metadata :: meta

text \<open>
  What the parsers read from outside: the text files that \<open>open\<close> can read, and what
  PyPDF2 and python-docx extract from a path (the text of each page, the text of each
  paragraph), or the exception they raise, \<open>RuntimeError\<close> when the library is missing.
\<close>

record env =
  files :: "string \<rightharpoonup> string"
  pdf_pages :: "string \<Rightarrow> error + string list"
  docx_paragraphs :: "string \<Rightarrow> error + string list"

text \<open>
  A path that is not among the files is a missing file: \<open>open\<close> raises
  \<open>FileNotFoundError\<close>, an \<open>OSError\<close>, whose text names the path.
\<close>

definition parse_txt :: "env \<Rightarrow> string \<Rightarrow> error + pyrec list" where
  "parse_txt e path =
     (case files e path of
        None \<Rightarrow>
          Inl (OSError (''[Errno 2] No such file or directory: '' @ [CHR 0x27] @ path @ [CHR 0x27]))
      | Some text \<Rightarrow>
          Inr [\<lparr>rec_text = Some text,
                rec_metadata = Some [''source'' \<mapsto> PStr (basename path)]\<rparr>])"

definition parse_pdf :: "env \<Rightarrow> string \<Rightarrow> error + pyrec list" where
  "parse_pdf e path =
     (case pdf_pages e path of
        Inl err \<Rightarrow> Inl err
      | Inr pages \<Rightarrow>
          Inr (map (\<lambda>(i, text).
                 \<lparr>rec_text = Some text,
                  rec_metadata = Some [''source'' \<mapsto> PStr (basename path),
                                       ''page'' \<mapsto> PInt (int i)]\<rparr>)
               (zip [1..<Suc (length pages)] pages)))"

definition parse_docx :: "env \<Rightarrow> string \<Rightarrow> error + pyrec list" where
  "parse_docx e path =
     (case docx_paragraphs e path of
        Inl err \<Rightarrow> Inl err
      | Inr paragraphs \<Rightarrow>
          (let text = concat (map (\<lambda>p. p @ [CHR 0x0A]) paragraphs);
               title = (case paragraphs of [] \<Rightarrow> None | p # ps \<Rightarrow> Some (strip p));
               meta = [''source'' \<mapsto> PStr (basename path)]
           in Inr [\<lparr>rec_text = Some text,
                    rec_metadata =
                      Some (case title of
                              None \<Rightarrow> meta
                            | Some t \<Rightarrow> if t \<noteq> [] then meta(''title'' \<mapsto> PStr t) else meta)\<rparr>]))"

text \<open>
  The extension that \<open>os.path.splitext\<close> returns: from the last dot of the file name,
  unless the name has no dot or only dots before that one.
\<close>

definition splitext_ext :: "string \<Rightarrow> string" where
  "splitext_ext p =
     (let name = basename p;
          after = rev (takeWhile (\<lambda>c. c \<noteq> CHR ''.'') (rev name));
          stem = rev (drop 1 (dropWhile (\<lambda>c. c \<noteq> CHR ''.'') (rev name)))
      in if CHR ''.'' \<in> set name \<and> list_ex (\<lambda>c. c \<noteq> CHR ''.'') stem
         then CHR ''.'' # after else [])"

definition parse_file :: "env \<Rightarrow> string \<Rightarrow> error + pyrec list" where
  "parse_file e path =
     (let ext = lower (splitext_ext path)
      in if ext = ''.pdf'' then parse_pdf e path
         else if ext = ''.docx'' then parse_docx e path
         else if ext = ''.txt'' then parse_txt e path
         else Inl (ValueError (''Unsupported file type: '' @ ext)))"

text \<open>
  The inner loop of \<open>chunk_records\<close>, over the chunks of one record: it carries the
  counter \<open>cid\<close> and the list \<open>chunks\<close>.
\<close>

fun attach_chunks ::
  "string list \<Rightarrow> meta \<Rightarrow> int \<Rightarrow> chunk list \<Rightarrow> error + (int \<times> chunk list)" where
  "attach_chunks [] base_meta cid chunks = Inr (cid, chunks)"
| "attach_chunks (ch # chs) base_meta cid chunks =
     (case build_chunk_metadata (dict_get base_meta ''source'' (PStr ''unknown''))
             (base_meta ''page'') cid of
        Inl err \<Rightarrow> Inl err
      | Inr m \<Rightarrow>
          attach_chunks chs base_meta (cid + 1)
            (chunks @ [\<lparr>chunk_text = ch, chunk_metadata = base_meta ++ m\<rparr>]))"

text \<open>
  The outer loop, over the records. The chunker is a loop that may not return, so the
  result is an option; inside it, an exception or the chunks.
\<close>

fun chunk_records_loop ::
  "pyrec list \<Rightarrow> int \<Rightarrow> chunk list \<Rightarrow> (error + chunk list) option" where
  "chunk_records_loop [] cid chunks = Some (Inr chunks)"
| "chunk_records_loop (r # rs) cid chunks =
     (case char_chunk_text (case rec_text r of None \<Rightarrow> [] | Some t \<Rightarrow> t)
             CHUNK_MIN CHUNK_MAX CHUNK_OVERLAP of
        None \<Rightarrow> None
      | Some chs \<Rightarrow>
          (case attach_chunks chs (case rec_metadata r of None \<Rightarrow> Map.empty | Some m \<Rightarrow> m)
                  cid chunks of
             Inl err \<Rightarrow> Some (Inl err)
           | Inr (cid', chunks') \<Rightarrow> chunk_records_loop rs cid' chunks'))"

definition chunk_records :: "pyrec list \<Rightarrow> (error + chunk list) option" where
  "chunk_records records = chunk_records_loop records 1 []"

text \<open>
  \<open>ingest\<close>: the loop over the paths with its list \<open>all_chunks\<close>. (\<open>ensure_dirs\<close> only
  creates two directories and is left out.)
\<close>

fun ingest_loop :: "env \<Rightarrow> string list \<Rightarrow> chunk list \<Rightarrow> (error + chunk list) option" where
  "ingest_loop e [] all_chunks = Some (Inr all_chunks)"
| "ingest_loop e (p # ps) all_chunks =
     (case parse_file e p of
        Inl err \<Rightarrow> Some (Inl err)
      | Inr records \<Rightarrow>
          (case chunk_records records of
             None \<Rightarrow> None
           | Some (Inl err) \<Rightarrow> Some (Inl err)
           | Some (Inr cs) \<Rightarrow> ingest_loop e ps (all_chunks @ cs)))"

definition ingest :: "env \<Rightarrow> string list \<Rightarrow> (error + chunk list) option" where
  "ingest e paths = ingest_loop e paths []"

text \<open>The \<open>chunk_id\<close> values of a list of chunks, and of the result of an ingestion.\<close>

definition chunk_ids :: "chunk list \<Rightarrow> pyval option list" where
  "chunk_ids chunks = map (\<lambda>c. chunk_metadata c ''chunk_id'') chunks"

definition ingest_chunk_ids :: "env \<Rightarrow> string list \<Rightarrow> (error + pyval option list) option" where
  "ingest_chunk_ids e paths = map_option (map_sum id chunk_ids) (ingest e paths)"

text \<open>The identifier that the counter value \<open>i\<close> gives.\<close>

definition chunk_id_of :: "int \<Rightarrow> pyval option" where
  "chunk_id_of i = Some (PStr (''chunk_'' @ str_int i))"

text \<open>Two text files, for the examples.\<close>

definition two_files :: env where
  "two_files =
     \<lparr>files = [''./uploads/a.txt'' \<mapsto> ''Alpha clause. Payment is due.'',
               ''./uploads/b.txt'' \<mapsto> ''Beta clause.''],
      pdf_pages = (\<lambda>p. Inl (RuntimeError ''PyPDF2 not installed. Install it to parse PDFs.'')),
      docx_paragraphs =
        (\<lambda>p. Inl (RuntimeError ''python-docx not installed. Install it to parse DOCX.''))\<rparr>"

definition meta_paged :: meta where
  "meta_paged =
     [''source'' \<mapsto> PStr ''a.pdf'', ''page'' \<mapsto> PInt 3, ''chunk_id'' \<mapsto> PStr ''chunk_7'']"

definition meta_plain :: meta where
  "meta_plain = [''source'' \<mapsto> PStr ''b.txt'', ''chunk_id'' \<mapsto> PStr ''chunk_1'']"

section \<open>The summary chain: \<open>rag_pipeline.py\<close>\<close>

text \<open>A retrieved document; \<open>d.metadata or {}\<close> reads a missing metadata as empty.\<close>

record document =
  page_content :: string
  metadata :: "meta option"













section \<open>The topical guard: \<open>guard_unrelated\<close>\<close>

definition greetings :: "string list" where
  "greetings =
     [''hi'', ''hello'', ''hey'', ''good morning'', ''good afternoon'', ''good evening'',
      ''how are you'', ''thanks'', ''thank you'']"

definition assistant_phrases :: "string list" where
  "assistant_phrases = [''what can you do'', ''what are you'', ''who are you'', ''help'']"

text \<open>The dot of a pattern: any character but a newline.\<close>

definition dot :: "char \<Rightarrow> bool" where
  "dot c = (c \<noteq> CHR 0x0A)"

definition unrelated_patterns :: "rx list" where
  "unrelated_patterns =
     [seqs [WordB,
            alts [lit ''weather'', lit ''news'', lit ''sports'',
                  Seq (lit ''movie'') (Opt (lit ''s'')), lit ''music'',
                  Seq (lit ''song'') (Opt (lit ''s''))],
            WordB],
      seqs [WordB, alts [lit ''recipe'', lit ''cooking'', lit ''food''], WordB],
      seqs [WordB, alts [lit ''travel'', lit ''vacation'', lit ''hotel''], WordB],
      seqs [WordB, lit ''write'', Star dot, lit ''story'', WordB],
      seqs [WordB, lit ''play'', Star dot, lit ''game'', WordB],
      seqs [WordB, lit ''tell'', Star dot, lit ''joke'', WordB]]"

definition matches_unrelated :: "string \<Rightarrow> bool" where
  "matches_unrelated q = list_ex (\<lambda>p. re_search p q \<noteq> None) unrelated_patterns"

definition guard_unrelated :: "string \<Rightarrow> bool" where
  "guard_unrelated question =
     (let q = strip (lower question)
      in if list_ex (\<lambda>greeting. str_in greeting q) greetings then False
         else if list_ex (\<lambda>phrase. str_in phrase q) assistant_phrases then False
         else matches_unrelated q)"

section \<open>Answering a question: \<open>stream_answer\<close>\<close>

text \<open>
  A chain is what \<open>stream\<close> does with a question: the items it yields and, if it fails on
  the way, the exception after them. An item carries its content as a string or as a list
  of strings. The two module variables \<open>qa_chain\<close> and \<open>summary_chain\<close> are the state;
  what the two builders return, a chain or an exception, comes from outside.
\<close>

datatype stream_item = Content string | ContentList "string list"

type_synonym chain = "string \<Rightarrow> stream_item list \<times> error option"

record app_state =
  qa_chain :: "chain option"
  summary_chain :: "chain option"

record builders =
  build_qa_chain :: "error + chain"
  build_summary_chain :: "error + chain"

text \<open>\<open>ensure_chains\<close> returns the state it leaves and the exception it raises, if any.\<close>

definition ensure_chains :: "builders \<Rightarrow> app_state \<Rightarrow> app_state \<times> error option" where
  "ensure_chains b st =
     (case (case qa_chain st of
              None \<Rightarrow> (case build_qa_chain b of
                          Inl err \<Rightarrow> Inl err
                        | Inr c \<Rightarrow> Inr (st\<lparr>qa_chain := Some c\<rparr>))
            | Some c \<Rightarrow> Inr st) of
        Inl err \<Rightarrow> (st, Some err)
      | Inr st1 \<Rightarrow>
          (case summary_chain st1 of
             None \<Rightarrow> (case build_summary_chain b of
                         Inl err \<Rightarrow> (st1, Some err)
                       | Inr c \<Rightarrow> (st1\<lparr>summary_chain := Some c\<rparr>, None))
           | Some c \<Rightarrow> (st1, None)))"

text \<open>
  The canned replies. The bullet character of the source lies outside the characters of
  the model and is written \<open>*\<close>.
\<close>

definition greeting_reply :: string where
  "greeting_reply =
     ''Hello! I'm your Smart Contract Assistant. I can help you analyze uploaded contract documents. You can:''
     @ [CHR 0x0A, CHR 0x0A] @ ''* Upload documents in the sidebar''
     @ [CHR 0x0A] @ ''* Ask questions about contract content''
     @ [CHR 0x0A] @ ''* Generate summaries of your documents''
     @ [CHR 0x0A, CHR 0x0A] @ ''How can I assist you today?''"

definition how_are_you_reply :: string where
  "how_are_you_reply =
     ''I'm doing well, thank you! I'm ready to help you analyze your contract documents. Have you uploaded any documents yet?''"

definition about_reply :: string where
  "about_reply =
     ''I'm a Smart Contract Assistant powered by RAG (Retrieval Augmented Generation). I can:''
     @ [CHR 0x0A, CHR 0x0A] @ ''* **Analyze contract documents** - Upload PDF, DOCX, or TXT files''
     @ [CHR 0x0A] @ ''* **Answer questions** about contract content with citations''
     @ [CHR 0x0A] @ ''* **Generate summaries** of uploaded documents''
     @ [CHR 0x0A] @ ''* **Provide insights** based on your specific contract data''
     @ [CHR 0x0A, CHR 0x0A]
     @ ''To get started, upload your documents using the sidebar, then ask me anything about them!''"

definition thanks_reply :: string where
  "thanks_reply =
     ''You're welcome! Is there anything else I can help you with regarding your contract documents?''"

definition off_topic_reply :: string where
  "off_topic_reply =
     ''I'm focused on helping with contract document analysis. Please upload your documents and ask questions related to their content, or I can help generate summaries of your uploaded materials.''"

definition no_index_reply :: string where
  "no_index_reply =
     ''I don't have any documents indexed yet. Please upload and index documents first using the sidebar, then I can answer questions about them.''"

text \<open>The text that one streamed item adds to the answer.\<close>

fun item_part :: "stream_item \<Rightarrow> string" where
  "item_part (Content s) = s"
| "item_part (ContentList xs) = join [CHR 0x0A] xs"

text \<open>
  The streaming loop: after each item the last message has grown by the item's part and
  the history is yielded. \<open>shown\<close> is the history before the assistant's message, \<open>buf\<close>
  the content of that message so far.
\<close>

fun stream_yields ::
  "(string \<times> string) list \<Rightarrow> string \<Rightarrow> stream_item list \<Rightarrow> (string \<times> string) list list" where
  "stream_yields shown buf [] = []"
| "stream_yields shown buf (item # items) =
     (shown @ [(''assistant'', buf @ item_part item)])
       # stream_yields shown (buf @ item_part item) items"

text \<open>
  \<open>stream_answer\<close> is a generator: the model returns the histories it yields in order, the
  state it leaves, and the exception that ends it, if one escapes.
\<close>

definition stream_answer ::
  "builders \<Rightarrow> app_state \<Rightarrow> string \<Rightarrow> (string \<times> string) list
     \<Rightarrow> (string \<times> string) list list \<times> app_state \<times> error option" where
  "stream_answer b st question history0 =
     (let history = history0 @ [(''user'', question)];
          q_lower = strip (lower question)
      in if list_ex (\<lambda>greeting. str_in greeting q_lower)
              [''hi'', ''hello'', ''hey'', ''good morning'', ''good afternoon'', ''good evening'']
         then ([history @ [(''assistant'', greeting_reply)]], st, None)
         else if list_ex (\<lambda>phrase. str_in phrase q_lower) [''how are you'']
         then ([history @ [(''assistant'', how_are_you_reply)]], st, None)
         else if list_ex (\<lambda>phrase. str_in phrase q_lower)
              [''what can you do'', ''what are you'', ''who are you'', ''help'']
         then ([history @ [(''assistant'', about_reply)]], st, None)
         else if list_ex (\<lambda>phrase. str_in phrase q_lower) [''thanks'', ''thank you'']
         then ([history @ [(''assistant'', thanks_reply)]], st, None)
         else if guard_unrelated question
         then ([history @ [(''assistant'', off_topic_reply)]], st, None)
         else
           (case ensure_chains b st of
              (st1, Some (RuntimeError msg)) \<Rightarrow> ([history @ [(''assistant'', msg)]], st1, None)
            | (st1, Some err) \<Rightarrow> ([], st1, Some err)
            | (st1, None) \<Rightarrow>
                (case qa_chain st1 of
                   None \<Rightarrow> ([history @ [(''assistant'', no_index_reply)]], st1, None)
                 | Some c \<Rightarrow>
                     (case c question of
                        (items, failure) \<Rightarrow>
                          ((history @ [(''assistant'', [])])
                             # stream_yields history [] items
                             @ (case failure of
                                  None \<Rightarrow> []
                                | Some err \<Rightarrow>
                                    [history @ [(''assistant'', ''Answer error: '' @ err_str err)]]),
                           st1, None)))))"

text \<open>
  A first start of the application, before any upload: no chain has been built, and the
  builders succeed (the API key is set by \<open>app.py\<close> itself). The chain answers every
  question with two items.
\<close>

definition fresh_state :: app_state where
  "fresh_state = \<lparr>qa_chain = None, summary_chain = None\<rparr>"

definition working_builders :: builders where
  "working_builders =
     \<lparr>build_qa_chain = Inr (\<lambda>q. ([Content ''I don't '', Content ''know.''], None)),
      build_summary_chain = Inr (\<lambda>q. ([Content ''Summary.''], None))\<rparr>"

section \<open>Notions used in the statements and proofs\<close>

definition at_dollar :: "string \<Rightarrow> nat \<Rightarrow> bool" where
  "at_dollar s e = (e = length s \<or> (Suc e = length s \<and> s ! e = CHR 0x0A))"

definition digits_val :: "string \<Rightarrow> nat" where
  "digits_val s = foldl (\<lambda>a c. 10 * a + (of_char c - 48)) 0 s"

definition ids_from :: "int \<Rightarrow> nat \<Rightarrow> pyval option list" where
  "ids_from cid k = map (\<lambda>j. chunk_id_of (cid + int j)) [0..<k]"




section \<open>Proofs\<close>

subsection \<open>The sentence-break pattern matches only at the end of the window\<close>

lemma run_le: "i \<le> length s \<Longrightarrow> i + run p s i \<le> length s"
  unfolding run_def using length_takeWhile_le [of p "drop i s"] by simp

lemma run_stop: "i + run p s i < length s \<Longrightarrow> \<not> p (s ! (i + run p s i))"
  unfolding run_def using nth_length_takeWhile [of p "drop i s"] by simp

lemma run_all: "k < run p s i \<Longrightarrow> p (s ! (i + k))"
proof -
  assume k: "k < run p s i"
  then have "takeWhile p (drop i s) ! k = drop i s ! k"
    unfolding run_def by (rule takeWhile_nth)
  moreover have "takeWhile p (drop i s) ! k \<in> set (takeWhile p (drop i s))"
    using k unfolding run_def by simp
  then have "p (takeWhile p (drop i s) ! k)" by (rule set_takeWhileD [THEN conjunct2])
  moreover have "i + k < length s"
    using k length_takeWhile_le [of p "drop i s"] unfolding run_def by simp
  ultimately show ?thesis by simp
qed

lemma run_past_end: "length s \<le> i \<Longrightarrow> run p s i = 0"
  by (simp add: run_def)

lemma run_sub:
  assumes sub: "\<And>c. q c \<Longrightarrow> p c" and k: "k \<le> run p s i" and i: "i \<le> length s"
  shows "k + run q s (i + k) \<le> run p s i"
proof (rule ccontr)
  assume "\<not> ?thesis"
  with k have lt: "run p s i - k < run q s (i + k)" by arith
  from run_all [OF lt] k have "q (s ! (i + run p s i))" by simp
  then have "p (s ! (i + run p s i))" by (rule sub)
  moreover have "i + k \<le> length s" using run_le [OF i, of p] k by simp
  then have "i + k + run q s (i + k) \<le> length s" by (rule run_le)
  with lt k have "i + run p s i < length s" by simp
  ultimately show False using run_stop by blast
qed

lemma ends_Seq_mem: "e \<in> set (ends (Seq a b) s i) \<longleftrightarrow> (\<exists>j\<in>set (ends a s i). e \<in> set (ends b s j))"
  by simp

lemma ends_Ch_mem: "j \<in> set (ends (Ch p) s i) \<longleftrightarrow> i < length s \<and> p (s ! i) \<and> j = Suc i"
  by auto

lemma ends_Plus_mem: "j \<in> set (ends (Plus p) s i) \<longleftrightarrow> (\<exists>k. 1 \<le> k \<and> k \<le> run p s i \<and> j = i + k)"
  by (auto simp del: upt_Suc simp: less_Suc_eq_le intro!: exI [of _ "j - i"])

lemma ends_Star_mem: "j \<in> set (ends (Star p) s i) \<longleftrightarrow> (\<exists>k. k \<le> run p s i \<and> j = i + k)"
  by (auto simp del: upt_Suc simp: less_Suc_eq_le intro!: exI [of _ "j - i"])

lemma ends_Dollar_mem: "j \<in> set (ends Dollar s i) \<longleftrightarrow> at_dollar s i \<and> j = i"
  by (auto simp: at_dollar_def)

lemma sentence_break_ends:
  assumes "e \<in> set (ends sentence_break s i)"
  shows "e \<le> Suc i + run is_space s (Suc i) \<and> at_dollar s e \<and> Suc i < length s"
proof -
  let ?q = "\<lambda>c. is_space c \<and> c \<noteq> CHR 0x0A"
  let ?t = "\<lambda>c. c = CHR ''.'' \<or> c = CHR ''!'' \<or> c = CHR ''?''"
  from assms obtain j1 j2 j3 where j1: "j1 \<in> set (ends (Ch ?t) s i)"
    and j2: "j2 \<in> set (ends (Plus is_space) s j1)"
    and j3: "j3 \<in> set (ends (Star ?q) s j2)"
    and je: "e \<in> set (ends Dollar s j3)"
    unfolding sentence_break_def ends_Seq_mem by blast
  from j1 have i: "i < length s" and j1': "j1 = Suc i"
    unfolding ends_Ch_mem by blast+
  from j2 obtain k where k: "1 \<le> k" "k \<le> run is_space s (Suc i)" and j2': "j2 = Suc i + k"
    unfolding ends_Plus_mem j1' by blast
  from j3 obtain l where l: "l \<le> run ?q s (Suc i + k)" and j3': "j3 = Suc i + k + l"
    unfolding ends_Star_mem j2' by blast
  from je have d: "at_dollar s e" and e: "e = Suc i + k + l"
    unfolding ends_Dollar_mem j3' by blast+
  have "Suc i \<le> length s" using i by simp
  then have "k + run ?q s (Suc i + k) \<le> run is_space s (Suc i)"
    using k by (intro run_sub) simp_all
  moreover have "Suc i < length s"
    using k run_past_end [of s "Suc i" is_space] by (cases "Suc i < length s") simp_all
  ultimately show ?thesis using l e d by simp
qed

lemma is_space_newline: "is_space (CHR 0x0A)"
  by (simp add: is_space_def)

lemma sentence_break_hd:
  assumes ne: "ends sentence_break s i \<noteq> []"
  shows "hd (ends sentence_break s i) = length s"
proof -
  let ?r = "run is_space s (Suc i)"
  let ?J = "Suc i + ?r"
  from ne obtain e where e: "e \<in> set (ends sentence_break s i)"
    by (cases "ends sentence_break s i") auto
  from sentence_break_ends [OF e] have eJ: "e \<le> ?J" and d: "at_dollar s e" and i: "Suc i < length s"
    by simp_all
  have J: "?J \<le> length s" using i by (intro run_le) simp
  have Jn: "?J = length s"
  proof (rule ccontr)
    assume "?J \<noteq> length s"
    with J have lt: "?J < length s" by simp
    with eJ d have "Suc e = length s" and nl: "s ! e = CHR 0x0A" by (auto simp: at_dollar_def)
    with eJ lt have "e = ?J" by arith
    with nl run_stop [OF lt] is_space_newline show False by simp
  qed
  have r: "0 < ?r" using i Jn by simp
  have tm: "i < length s \<and> (s ! i = CHR ''.'' \<or> s ! i = CHR ''!'' \<or> s ! i = CHR ''?'')"
    using ne unfolding sentence_break_def by (auto split: if_splits)
  have upt: "rev [1..<Suc ?r] = ?r # rev [1..<?r]" using r by simp
  have tail: "ends (Seq (Star (\<lambda>c. is_space c \<and> c \<noteq> CHR 0x0A)) Dollar) s (length s) = [length s]"
    by (simp add: run_def)
  show ?thesis
    unfolding sentence_break_def using tm upt tail Jn by simp
qed

lemma re_search_sentence_break_end:
  "re_search sentence_break w = Some (i, e) \<Longrightarrow> e = length w"
  unfolding re_search_def
  by (auto simp: find_Some_iff sentence_break_hd)

subsection \<open>One pass of the chunker\<close>

lemma length_py_slice:
  "length (py_slice s a b) =
     min (nat (clamp_index (int (length s)) b - clamp_index (int (length s)) a))
         (length s - nat (clamp_index (int (length s)) a))"
  by (simp add: py_slice_def Let_def)

lemma length_py_slice_inside:
  assumes "0 \<le> a" "a \<le> b" "b \<le> int (length s)"
  shows "int (length (py_slice s a b)) = b - a"
proof -
  have "clamp_index (int (length s)) a = a" "clamp_index (int (length s)) b = b"
    using assms by (simp_all add: clamp_index_def)
  then show ?thesis using assms unfolding length_py_slice by simp
qed

lemma length_py_slice_lower:
  assumes "0 \<le> a" "a < int (length s)" "b \<le> int (length s)"
  shows "(if b < 0 then b + int (length s) else b) - a \<le> int (length (py_slice s a b))"
proof -
  have "clamp_index (int (length s)) a = a"
    using assms by (simp add: clamp_index_def)
  moreover have "(if b < 0 then b + int (length s) else b) \<le> clamp_index (int (length s)) b"
    "clamp_index (int (length s)) b \<le> int (length s)"
    using assms by (simp_all add: clamp_index_def)
  ultimately show ?thesis using assms unfolding length_py_slice by (simp split: if_splits)
qed

lemma chunk_cut_cases:
  assumes "chunk_cut text chunk_min chunk_max start = (e, c)"
  shows "(e = min (start + chunk_max) (int (length text))
            \<and> c = py_slice text start (min (start + chunk_max) (int (length text))))
         \<or> (e = start + int (length (py_slice text start (min (start + chunk_max) (int (length text)))))
            \<and> c = py_slice text start e)"
  using assms unfolding chunk_cut_def Let_def
  by (auto split: option.splits if_splits dest!: re_search_sentence_break_end)

lemma chunk_cut_hard:
  assumes "0 \<le> start" "start \<le> int (length text)" "0 \<le> chunk_max"
  shows "chunk_cut text chunk_min chunk_max start =
           (min (start + chunk_max) (int (length text)),
            py_slice text start (min (start + chunk_max) (int (length text))))"
proof -
  define E where "E = min (start + chunk_max) (int (length text))"
  obtain e c where ec: "chunk_cut text chunk_min chunk_max start = (e, c)"
    by (cases "chunk_cut text chunk_min chunk_max start")
  have "start \<le> E" "E \<le> int (length text)" using assms by (simp_all add: E_def)
  with assms(1) have "int (length (py_slice text start E)) = E - start"
    by (intro length_py_slice_inside)
  then have "start + int (length (py_slice text start E)) = E" by simp
  with chunk_cut_cases [OF ec] ec show ?thesis unfolding E_def [symmetric] by auto
qed

lemma chunk_cut_progress:
  assumes "0 \<le> start" "start < int (length text)"
    and ec: "chunk_cut text chunk_min chunk_max start = (e, c)" and "e < int (length text)"
  shows "start + chunk_max \<le> e"
proof -
  define E where "E = min (start + chunk_max) (int (length text))"
  have En: "E \<le> int (length text)" by (simp add: E_def)
  from chunk_cut_cases [OF ec]
  consider "e = E" | "e = start + int (length (py_slice text start E))"
    unfolding E_def by blast
  then show ?thesis
  proof cases
    case 1
    with assms(4) show ?thesis by (simp add: E_def)
  next
    case 2
    from length_py_slice_lower [OF assms(1,2) En] 2
    have "(if E < 0 then E + int (length text) else E) \<le> e" by simp
    with assms(4) have "E < int (length text)" "E \<le> e" by (simp_all split: if_splits)
    then show ?thesis by (simp add: E_def)
  qed
qed

subsection \<open>The chunker loop\<close>

lemma chunk_loop_returns:
  assumes ov: "overlap < chunk_max"
  shows "0 \<le> start \<Longrightarrow> \<exists>r. chunk_loop text chunk_min chunk_max overlap start chunks = Some r"
proof (induction "nat (int (length text) - start)" arbitrary: start chunks rule: less_induct)
  case less
  show ?case
  proof (cases "start < int (length text)")
    case False
    then show ?thesis by (subst chunk_loop.simps) simp
  next
    case True
    obtain e c where ec: "chunk_cut text chunk_min chunk_max start = (e, c)"
      by (cases "chunk_cut text chunk_min chunk_max start")
    show ?thesis
    proof (cases "int (length text) \<le> e")
      case True
      with \<open>start < int (length text)\<close> ec show ?thesis by (subst chunk_loop.simps) simp
    next
      case False
      then have "e < int (length text)" by simp
      from chunk_cut_progress [OF less.prems True ec this] ov
      have gt: "start < max 0 (e - overlap)" by simp
      with less.prems True have "nat (int (length text) - max 0 (e - overlap)) < nat (int (length text) - start)"
        by simp
      moreover have "0 \<le> max 0 (e - overlap)" by simp
      ultimately obtain r where
        "chunk_loop text chunk_min chunk_max overlap (max 0 (e - overlap)) (chunks @ [c]) = Some r"
        using less.hyps by blast
      with True False ec show ?thesis by (subst chunk_loop.simps) simp
    qed
  qed
qed

lemma chunk_cut_found:
  assumes "sentence_break_found text chunk_min chunk_max start"
  shows "\<exists>m_start m_end.
           re_search sentence_break
              (py_slice text start (min (start + chunk_max) (int (length text))))
             = Some (m_start, m_end)
           \<and> chunk_cut text chunk_min chunk_max start
               = (start + int m_end, py_slice text start (start + int m_end))"
  using assms unfolding sentence_break_found_def chunk_cut_def Let_def by auto

lemma chunk_cut_not_found:
  assumes "\<not> sentence_break_found text chunk_min chunk_max start"
  shows "chunk_cut text chunk_min chunk_max start
           = (min (start + chunk_max) (int (length text)),
              py_slice text start (min (start + chunk_max) (int (length text))))"
  using assms unfolding sentence_break_found_def chunk_cut_def Let_def
  by (auto split: option.splits)

lemma chunk_loop_passes:
  assumes cm: "0 < chunk_max" and ov: "overlap < chunk_max"
  shows "0 \<le> start \<Longrightarrow>
    \<exists>rest. chunk_loop text chunk_min chunk_max overlap start chunks = Some (chunks @ rest)
      \<and> (\<forall>k<length rest.
            0 \<le> (next_start text chunk_min chunk_max overlap ^^ k) start
            \<and> rest ! k = snd (chunk_cut text chunk_min chunk_max
                               ((next_start text chunk_min chunk_max overlap ^^ k) start))
            \<and> int (length (rest ! k)) \<le> chunk_max
            \<and> (Suc k < length rest \<longrightarrow>
                  (next_start text chunk_min chunk_max overlap ^^ k) start + chunk_max
                    < int (length text)))"
proof (induction "nat (int (length text) - start)" arbitrary: start chunks rule: less_induct)
  case less
  let ?n = "int (length text)"
  let ?f = "next_start text chunk_min chunk_max overlap"
  show ?case
  proof (cases "start < ?n")
    case False
    then have "chunk_loop text chunk_min chunk_max overlap start chunks = Some (chunks @ [])"
      by (subst chunk_loop.simps) simp
    then show ?thesis by (intro exI [of _ "[]"]) simp
  next
    case True
    define E where "E = min (start + chunk_max) ?n"
    define c where "c = py_slice text start E"
    have ec: "chunk_cut text chunk_min chunk_max start = (E, c)"
      unfolding E_def c_def using less.prems True cm by (intro chunk_cut_hard) simp_all
    have "start \<le> E" "E \<le> ?n" using True cm by (simp_all add: E_def)
    with less.prems have "int (length c) = E - start"
      unfolding c_def by (intro length_py_slice_inside)
    then have len: "int (length c) \<le> chunk_max" by (simp add: E_def)
    have c0: "c = snd (chunk_cut text chunk_min chunk_max start)" by (simp add: ec)
    show ?thesis
    proof (cases "?n \<le> E")
      case True
      with \<open>start < ?n\<close> ec
      have "chunk_loop text chunk_min chunk_max overlap start chunks = Some (chunks @ [c])"
        by (subst chunk_loop.simps) simp
      moreover have "\<forall>k<length [c]. 0 \<le> (?f ^^ k) start
            \<and> [c] ! k = snd (chunk_cut text chunk_min chunk_max ((?f ^^ k) start))
            \<and> int (length ([c] ! k)) \<le> chunk_max
            \<and> (Suc k < length [c] \<longrightarrow> (?f ^^ k) start + chunk_max < ?n)"
        using len c0 less.prems by simp
      ultimately show ?thesis by blast
    next
      case False
      then have E: "E = start + chunk_max" and lt: "start + chunk_max < ?n"
        by (simp_all add: E_def)
      have nx: "?f start = max 0 (E - overlap)" by (simp add: next_start_def ec)
      have "start < max 0 (E - overlap)" using ov less.prems by (simp add: E)
      with less.prems True
      have "nat (?n - max 0 (E - overlap)) < nat (?n - start)" by simp
      moreover have "0 \<le> max 0 (E - overlap)" by simp
      ultimately obtain rest where
        r: "chunk_loop text chunk_min chunk_max overlap (max 0 (E - overlap)) (chunks @ [c])
              = Some ((chunks @ [c]) @ rest)"
        and r1: "\<forall>k<length rest. 0 \<le> (?f ^^ k) (max 0 (E - overlap))
            \<and> rest ! k = snd (chunk_cut text chunk_min chunk_max ((?f ^^ k) (max 0 (E - overlap))))
            \<and> int (length (rest ! k)) \<le> chunk_max
            \<and> (Suc k < length rest \<longrightarrow> (?f ^^ k) (max 0 (E - overlap)) + chunk_max < ?n)"
        using less.hyps by blast
      from True False ec r
      have "chunk_loop text chunk_min chunk_max overlap start chunks = Some (chunks @ (c # rest))"
        by (subst chunk_loop.simps) simp
      moreover have "0 \<le> (?f ^^ k) start
            \<and> (c # rest) ! k = snd (chunk_cut text chunk_min chunk_max ((?f ^^ k) start))
            \<and> int (length ((c # rest) ! k)) \<le> chunk_max
            \<and> (Suc k < length (c # rest) \<longrightarrow> (?f ^^ k) start + chunk_max < ?n)"
        if k: "k < length (c # rest)" for k
      proof (cases k)
        case 0
        with len c0 less.prems lt show ?thesis by simp
      next
        case (Suc j)
        with k have j: "j < length rest" by simp
        have st: "(?f ^^ k) start = (?f ^^ j) (max 0 (E - overlap))"
          unfolding Suc using nx by (simp add: funpow_swap1)
        have nth: "(c # rest) ! k = rest ! j" by (simp add: Suc)
        have sk: "Suc k < length (c # rest) \<longleftrightarrow> Suc j < length rest" by (simp add: Suc)
        from r1 j have "0 \<le> (?f ^^ j) (max 0 (E - overlap))
            \<and> rest ! j = snd (chunk_cut text chunk_min chunk_max ((?f ^^ j) (max 0 (E - overlap))))
            \<and> int (length (rest ! j)) \<le> chunk_max
            \<and> (Suc j < length rest \<longrightarrow> (?f ^^ j) (max 0 (E - overlap)) + chunk_max < ?n)"
          by blast
        then show ?thesis unfolding st nth sk .
      qed
      ultimately show ?thesis by blast
    qed
  qed
qed

subsection \<open>Trimming\<close>

lemma length_strip_le: "length (strip s) \<le> length s"
proof -
  have "length (strip s) \<le> length (dropWhile is_space s)"
    unfolding strip_def using length_dropWhile_le [of is_space "rev (dropWhile is_space s)"] by simp
  also have "\<dots> \<le> length s" by (rule length_dropWhile_le)
  finally show ?thesis .
qed

lemma strip_decomp: "\<exists>w. dropWhile is_space s = strip s @ w"
proof -
  let ?u = "dropWhile is_space s"
  have "strip s @ rev (takeWhile is_space (rev ?u))
          = rev (takeWhile is_space (rev ?u) @ dropWhile is_space (rev ?u))"
    by (simp only: strip_def rev_append)
  also have "\<dots> = rev (rev ?u)" by (simp only: takeWhile_dropWhile_id)
  also have "\<dots> = ?u" by simp
  finally have "?u = strip s @ rev (takeWhile is_space (rev ?u))" by (rule sym)
  then show ?thesis ..
qed

lemma strip_hd: "strip s \<noteq> [] \<Longrightarrow> \<not> is_space (hd (strip s))"
proof -
  assume ne: "strip s \<noteq> []"
  obtain w where w: "dropWhile is_space s = strip s @ w" using strip_decomp by blast
  with ne have "dropWhile is_space s \<noteq> []" by simp
  then have "\<not> is_space (hd (dropWhile is_space s))" by (rule hd_dropWhile)
  with w ne show ?thesis by simp
qed

lemma strip_last: "strip s \<noteq> [] \<Longrightarrow> \<not> is_space (last (strip s))"
proof -
  assume ne: "strip s \<noteq> []"
  then have "dropWhile is_space (rev (dropWhile is_space s)) \<noteq> []" by (simp add: strip_def)
  then have "\<not> is_space (hd (dropWhile is_space (rev (dropWhile is_space s))))" by (rule hd_dropWhile)
  then show ?thesis using ne by (simp add: strip_def last_rev)
qed

lemma strip_fixed: "s = [] \<or> (\<not> is_space (hd s) \<and> \<not> is_space (last s)) \<Longrightarrow> strip s = s"
proof (cases "s = []")
  case True then show ?thesis by (simp add: strip_def)
next
  case False
  assume "s = [] \<or> (\<not> is_space (hd s) \<and> \<not> is_space (last s))"
  with False have h: "\<not> is_space (hd s)" and l: "\<not> is_space (last s)" by simp_all
  from h False have "dropWhile is_space s = s" by (simp add: dropWhile_eq_self_iff)
  moreover from l False have "dropWhile is_space (rev s) = rev s"
    by (simp add: dropWhile_eq_self_iff hd_rev)
  ultimately show ?thesis by (simp add: strip_def)
qed

lemma strip_idem: "strip (strip s) = strip s"
  using strip_hd [of s] strip_last [of s] by (intro strip_fixed) blast

lemma py_slice_all: "py_slice s 0 (int (length s)) = s"
  by (simp add: py_slice_def clamp_index_def)

lemma set_butlast_map_filter: "set (butlast (map f (filter P xs))) \<subseteq> f ` set (butlast xs)"
proof (induction xs rule: rev_induct)
  case Nil
  show ?case by simp
next
  case (snoc x xs)
  have "set (butlast (map f (filter P xs))) \<subseteq> f ` set xs"
    using in_set_butlastD [of _ "map f (filter P xs)"] by auto
  then show ?case by (auto simp: butlast_append)
qed

subsection \<open>The claims about the chunker\<close>

text \<open>
  Claim C3: within each window the chunker is to find the last sentence terminator followed
  by whitespace and, when the segment up to it has at least \<open>chunk_min\<close> characters, cut
  there. The code does not: its pattern ends in \<open>$\<close>, so it matches only when the window
  itself ends in a sentence break, and then the match ends where the window ends
  (\<open>re_search_sentence_break_end\<close>, \<open>chunk_cut_hard\<close>). On the text below, with
  \<open>chunk_min = 3\<close>, \<open>chunk_max = 8\<close> and \<open>overlap = 2\<close>, the first window \<open>Aaaa. Bb\<close> holds a
  sentence break after five characters, and the first chunk is the whole window all the
  same.
\<close>

theorem sentence_boundary_not_used:
  "char_chunk_text ''Aaaa. Bbbbbbbbb'' 3 8 2 = Some [''Aaaa. Bb'', ''Bbbbbbbb'', ''bbb'']"
  by code_simp

text \<open>
  Claim C4 as stated, that every chunk produced but the last has at least \<open>chunk_min\<close>
  characters or comes from a hard cut with no qualifying sentence boundary found, fails on
  the text below with \<open>chunk_min = 5\<close>, \<open>chunk_max = 8\<close> and \<open>overlap = 4\<close>. The second pass
  starts at 4; its window of eight characters ends in a sentence break and has at least
  \<open>chunk_min\<close> characters, so the pass takes the sentence-break branch; and the chunk it
  gives, the second of four, is \<open>a.\<close> once trimmed, shorter than \<open>chunk_min\<close>.
\<close>

theorem trimmed_chunk_below_chunk_min:
  "char_chunk_text ''xxxx    a.  zzzzzzzz'' 5 8 4 = Some [''xxxx'', ''a.'', ''a.  zzzz'', ''zzzzzzzz'']
   \<and> int (length ''a.'') < 5
   \<and> chunk_loop (strip ''xxxx    a.  zzzzzzzz'') 5 8 4 0 []
        = Some [''xxxx    '', ''    a.  '', ''a.  zzzz'', ''zzzzzzzz'']
   \<and> pass_start (strip ''xxxx    a.  zzzzzzzz'') 5 8 4 1 = 4
   \<and> sentence_break_found (strip ''xxxx    a.  zzzzzzzz'') 5 8 4
   \<and> chunk_cut (strip ''xxxx    a.  zzzzzzzz'') 5 8 4 = (12, ''    a.  '')"
  by code_simp

text \<open>
  Claim C4, amended: with \<open>0 < chunk_max\<close> and \<open>overlap < chunk_max\<close>, as in the defaults,
  every chunk produced has at most \<open>chunk_max\<close> characters; and every chunk produced but the
  last is the trimmed form of the chunk of a pass of the loop, the \<open>k\<close>-th, which is not the
  last pass and whose chunk, before it is trimmed, has at least \<open>chunk_min\<close> characters or
  comes from a hard cut at the \<open>chunk_max\<close> boundary with no qualifying sentence boundary
  found. Trimming can leave the chunk produced shorter than \<open>chunk_min\<close>.
\<close>

theorem chunk_bounds:
  assumes "0 < chunk_max" and "overlap < chunk_max"
  shows "\<exists>out raw.
      char_chunk_text text chunk_min chunk_max overlap = Some out
    \<and> chunk_loop (strip text) chunk_min chunk_max overlap 0 [] = Some raw
    \<and> out = map strip (filter (\<lambda>c. strip c \<noteq> []) raw)
    \<and> (\<forall>c\<in>set out. int (length c) \<le> chunk_max)
    \<and> (\<forall>c\<in>set (butlast out).
          \<exists>k. Suc k < length raw \<and> c = strip (raw ! k)
            \<and> raw ! k = snd (chunk_cut (strip text) chunk_min chunk_max
                               (pass_start (strip text) chunk_min chunk_max overlap k))
            \<and> (chunk_min \<le> int (length (raw ! k))
               \<or> (\<not> sentence_break_found (strip text) chunk_min chunk_max
                       (pass_start (strip text) chunk_min chunk_max overlap k)
                  \<and> raw ! k = py_slice (strip text)
                       (pass_start (strip text) chunk_min chunk_max overlap k)
                       (pass_start (strip text) chunk_min chunk_max overlap k + chunk_max))))"
proof -
  let ?t = "strip text"
  let ?p = "pass_start ?t chunk_min chunk_max overlap"
  from chunk_loop_passes [OF assms, of 0 ?t chunk_min "[]"]
  obtain raw where raw: "chunk_loop ?t chunk_min chunk_max overlap 0 [] = Some raw"
    and pass: "\<And>k. k < length raw \<Longrightarrow>
          0 \<le> ?p k \<and> raw ! k = snd (chunk_cut ?t chunk_min chunk_max (?p k))
          \<and> int (length (raw ! k)) \<le> chunk_max
          \<and> (Suc k < length raw \<longrightarrow> ?p k + chunk_max < int (length ?t))"
    unfolding pass_start_def by auto
  let ?out = "map strip (filter (\<lambda>c. strip c \<noteq> []) raw)"
  have out: "char_chunk_text text chunk_min chunk_max overlap = Some ?out"
    by (simp add: char_chunk_text_def raw)
  have len: "\<forall>c\<in>set ?out. int (length c) \<le> chunk_max"
  proof
    fix c assume "c \<in> set ?out"
    then obtain w where "w \<in> set raw" "c = strip w" by auto
    then obtain k where "k < length raw" "w = raw ! k" by (auto simp: in_set_conv_nth)
    from pass [of k] \<open>k < length raw\<close> have "int (length (raw ! k)) \<le> chunk_max" by blast
    with \<open>w = raw ! k\<close> have "int (length w) \<le> chunk_max" by (simp only:)
    with \<open>c = strip w\<close> length_strip_le [of w] show "int (length c) \<le> chunk_max" by simp
  qed
  have cuts: "\<forall>c\<in>set (butlast ?out).
          \<exists>k. Suc k < length raw \<and> c = strip (raw ! k)
            \<and> raw ! k = snd (chunk_cut ?t chunk_min chunk_max (?p k))
            \<and> (chunk_min \<le> int (length (raw ! k))
               \<or> (\<not> sentence_break_found ?t chunk_min chunk_max (?p k)
                  \<and> raw ! k = py_slice ?t (?p k) (?p k + chunk_max)))"
  proof
    fix c assume "c \<in> set (butlast ?out)"
    with set_butlast_map_filter [of strip "\<lambda>c. strip c \<noteq> []" raw]
    obtain w where w: "w \<in> set (butlast raw)" and c: "c = strip w" by blast
    from w obtain k where k: "k < length (butlast raw)" and wk: "w = butlast raw ! k"
      by (auto simp: in_set_conv_nth)
    from k have sk: "Suc k < length raw" by simp
    from k wk have wr: "w = raw ! k" by (simp add: nth_butlast)
    from sk have kl: "k < length raw" by simp
    from pass [OF kl] sk have p0: "0 \<le> ?p k"
      and rk: "raw ! k = snd (chunk_cut ?t chunk_min chunk_max (?p k))"
      and lt: "?p k + chunk_max < int (length ?t)" by simp_all
    have mn: "min (?p k + chunk_max) (int (length ?t)) = ?p k + chunk_max" using lt by simp
    have "chunk_cut ?t chunk_min chunk_max (?p k)
            = (min (?p k + chunk_max) (int (length ?t)),
               py_slice ?t (?p k) (min (?p k + chunk_max) (int (length ?t))))"
      using p0 lt assms(1) by (intro chunk_cut_hard) simp_all
    with rk have sl: "raw ! k = py_slice ?t (?p k) (?p k + chunk_max)" by (simp only: mn snd_conv)
    have "chunk_min \<le> int (length (raw ! k))"
      if "sentence_break_found ?t chunk_min chunk_max (?p k)"
      using that unfolding sentence_break_found_def Let_def mn sl by simp
    with sl have "chunk_min \<le> int (length (raw ! k))
               \<or> (\<not> sentence_break_found ?t chunk_min chunk_max (?p k)
                  \<and> raw ! k = py_slice ?t (?p k) (?p k + chunk_max))" by blast
    with sk c wr rk show "\<exists>k. Suc k < length raw \<and> c = strip (raw ! k)
            \<and> raw ! k = snd (chunk_cut ?t chunk_min chunk_max (?p k))
            \<and> (chunk_min \<le> int (length (raw ! k))
               \<or> (\<not> sentence_break_found ?t chunk_min chunk_max (?p k)
                  \<and> raw ! k = py_slice ?t (?p k) (?p k + chunk_max)))" by blast
  qed
  from out raw len cuts show ?thesis by blast
qed

theorem chunk_bounds_witness:
  "(0::int) < 8 \<and> (4::int) < 8
   \<and> char_chunk_text ''xxxx    a.  zzzzzzzz'' 5 8 4
        = Some [''xxxx'', ''a.'', ''a.  zzzz'', ''zzzzzzzz'']
   \<and> chunk_loop (strip ''xxxx    a.  zzzzzzzz'') 5 8 4 0 []
        = Some [''xxxx    '', ''    a.  '', ''a.  zzzz'', ''zzzzzzzz'']
   \<and> int (length ''xxxx'') \<le> 8 \<and> int (length ''a.'') \<le> 8
   \<and> int (length ''a.  zzzz'') \<le> 8 \<and> int (length ''zzzzzzzz'') \<le> 8
   \<and> (\<exists>k. Suc k < length [''xxxx    '', ''    a.  '', ''a.  zzzz'', ''zzzzzzzz'']
          \<and> ''a.'' = strip ([''xxxx    '', ''    a.  '', ''a.  zzzz'', ''zzzzzzzz''] ! k)
          \<and> 5 \<le> int (length ([''xxxx    '', ''    a.  '', ''a.  zzzz'', ''zzzzzzzz''] ! k)))"
proof -
  have h: "(0::int) < 8" "(4::int) < 8" by simp_all
  have e: "char_chunk_text ''xxxx    a.  zzzzzzzz'' 5 8 4
             = Some [''xxxx'', ''a.'', ''a.  zzzz'', ''zzzzzzzz'']"
    and r: "chunk_loop (strip ''xxxx    a.  zzzzzzzz'') 5 8 4 0 []
             = Some [''xxxx    '', ''    a.  '', ''a.  zzzz'', ''zzzzzzzz'']"
    by code_simp+
  let ?raw = "[''xxxx    '', ''    a.  '', ''a.  zzzz'', ''zzzzzzzz'']"
  from chunk_bounds [OF h, of "''xxxx    a.  zzzzzzzz''" 5]
  obtain out raw where "char_chunk_text ''xxxx    a.  zzzzzzzz'' 5 8 4 = Some out"
    and "chunk_loop (strip ''xxxx    a.  zzzzzzzz'') 5 8 4 0 [] = Some raw"
    and l: "\<forall>c\<in>set out. int (length c) \<le> 8"
    and b: "\<forall>c\<in>set (butlast out).
          \<exists>k. Suc k < length raw \<and> c = strip (raw ! k)
            \<and> raw ! k = snd (chunk_cut (strip ''xxxx    a.  zzzzzzzz'') 5 8
                               (pass_start (strip ''xxxx    a.  zzzzzzzz'') 5 8 4 k))
            \<and> (5 \<le> int (length (raw ! k))
               \<or> (\<not> sentence_break_found (strip ''xxxx    a.  zzzzzzzz'') 5 8
                       (pass_start (strip ''xxxx    a.  zzzzzzzz'') 5 8 4 k)
                  \<and> raw ! k = py_slice (strip ''xxxx    a.  zzzzzzzz'')
                       (pass_start (strip ''xxxx    a.  zzzzzzzz'') 5 8 4 k)
                       (pass_start (strip ''xxxx    a.  zzzzzzzz'') 5 8 4 k + 8)))"
    by blast
  with e r have o: "out = [''xxxx'', ''a.'', ''a.  zzzz'', ''zzzzzzzz'']" and w: "raw = ?raw"
    by simp_all
  from l have ls: "int (length ''xxxx'') \<le> 8 \<and> int (length ''a.'') \<le> 8
      \<and> int (length ''a.  zzzz'') \<le> 8 \<and> int (length ''zzzzzzzz'') \<le> 8"
    unfolding o by simp
  have "''a.'' \<in> set (butlast out)" unfolding o by simp
  with b obtain k where k: "Suc k < length raw" "''a.'' = strip (raw ! k)" by blast
  have "5 \<le> int (length (?raw ! k))"
  proof -
    from k(1) have "k < 3" unfolding w by simp
    then consider "k = 0" | "k = 1" | "k = 2" by linarith
    then show ?thesis by cases simp_all
  qed
  with k have "\<exists>k. Suc k < length ?raw \<and> ''a.'' = strip (?raw ! k) \<and> 5 \<le> int (length (?raw ! k))"
    unfolding w by blast
  with h e r ls show ?thesis by blast
qed

text \<open>
  Claim C8 as stated, that every non-empty text shorter than \<open>chunk_min\<close> yields exactly one
  chunk, the whole text, fails on a text of three spaces: it is not empty, it is shorter
  than \<open>CHUNK_MIN\<close>, and the chunker yields no chunk at all, since it trims the text first
  and drops a chunk that is empty after trimming.
\<close>

theorem short_text_whitespace_counterexample:
  "''   '' \<noteq> [] \<and> int (length ''   '') < CHUNK_MIN
   \<and> char_chunk_text ''   '' CHUNK_MIN CHUNK_MAX CHUNK_OVERLAP = Some []"
  by code_simp

text \<open>
  Claim C8, amended: for every text whose trimmed form is not empty and shorter than
  \<open>chunk_min\<close>, with \<open>chunk_min \<le> chunk_max\<close> as in the defaults, the chunker yields
  exactly one chunk, the trimmed text.
\<close>

theorem short_text_one_chunk:
  assumes "strip text \<noteq> []" and "int (length (strip text)) < chunk_min"
    and "chunk_min \<le> chunk_max"
  shows "char_chunk_text text chunk_min chunk_max overlap = Some [strip text]"
proof -
  let ?t = "strip text"
  have pos: "0 < int (length ?t)" using assms(1) by simp
  have "chunk_cut ?t chunk_min chunk_max 0
          = (min (0 + chunk_max) (int (length ?t)), py_slice ?t 0 (min (0 + chunk_max) (int (length ?t))))"
    using assms by (intro chunk_cut_hard) simp_all
  moreover have "min (0 + chunk_max) (int (length ?t)) = int (length ?t)"
    using assms by simp
  ultimately have "chunk_cut ?t chunk_min chunk_max 0 = (int (length ?t), ?t)"
    by (simp only: py_slice_all)
  with pos have "chunk_loop ?t chunk_min chunk_max overlap 0 [] = Some [?t]"
    by (subst chunk_loop.simps) simp
  then show ?thesis using assms(1) by (simp add: char_chunk_text_def strip_idem)
qed

theorem short_text_one_chunk_witness:
  "strip '' Clause 1. '' \<noteq> [] \<and> int (length (strip '' Clause 1. '')) < CHUNK_MIN
   \<and> CHUNK_MIN \<le> CHUNK_MAX
   \<and> char_chunk_text '' Clause 1. '' CHUNK_MIN CHUNK_MAX CHUNK_OVERLAP = Some [''Clause 1.'']"
proof -
  have h: "strip '' Clause 1. '' \<noteq> []" "int (length (strip '' Clause 1. '')) < CHUNK_MIN"
    "CHUNK_MIN \<le> CHUNK_MAX"
    by code_simp+
  have s: "strip '' Clause 1. '' = ''Clause 1.''" by code_simp
  show ?thesis using h short_text_one_chunk [OF h, of CHUNK_OVERLAP] by (simp add: s)
qed

text \<open>
  Claim C9: whenever \<open>overlap < chunk_max\<close>, \<open>char_chunk_text\<close> returns; every pass that
  does not end the loop moves the start position strictly forward; and a pass whose cut
  reaches the end of the text ends the loop with that chunk as the last one.
\<close>

theorem char_chunk_text_terminates:
  assumes "overlap < chunk_max"
  shows "(\<exists>chunks. char_chunk_text text chunk_min chunk_max overlap = Some chunks)
    \<and> (\<forall>start e c. 0 \<le> start \<and> start < int (length (strip text))
          \<and> chunk_cut (strip text) chunk_min chunk_max start = (e, c)
          \<and> e < int (length (strip text))
          \<longrightarrow> start < max 0 (e - overlap))
    \<and> (\<forall>start e c chunks. start < int (length (strip text))
          \<and> chunk_cut (strip text) chunk_min chunk_max start = (e, c)
          \<and> int (length (strip text)) \<le> e
          \<longrightarrow> chunk_loop (strip text) chunk_min chunk_max overlap start chunks
                = Some (chunks @ [c]))"
proof (intro conjI allI impI)
  from chunk_loop_returns [OF assms, of 0 "strip text" chunk_min "[]"]
  show "\<exists>chunks. char_chunk_text text chunk_min chunk_max overlap = Some chunks"
    by (auto simp: char_chunk_text_def)
next
  fix start e c
  assume a: "0 \<le> start \<and> start < int (length (strip text))
          \<and> chunk_cut (strip text) chunk_min chunk_max start = (e, c)
          \<and> e < int (length (strip text))"
  then have "start + chunk_max \<le> e" by (intro chunk_cut_progress [of start "strip text" chunk_min chunk_max e c]) simp_all
  with assms a show "start < max 0 (e - overlap)" by simp
next
  fix start e c chunks
  assume "start < int (length (strip text))
          \<and> chunk_cut (strip text) chunk_min chunk_max start = (e, c)
          \<and> int (length (strip text)) \<le> e"
  then show "chunk_loop (strip text) chunk_min chunk_max overlap start chunks = Some (chunks @ [c])"
    by (subst chunk_loop.simps) simp
qed

theorem char_chunk_text_terminates_witness:
  "CHUNK_OVERLAP < CHUNK_MAX
   \<and> (\<exists>chunks. char_chunk_text ''Aaaa. Bbbbbbbbb'' CHUNK_MIN CHUNK_MAX CHUNK_OVERLAP = Some chunks)
   \<and> (2::int) < 8
   \<and> (\<exists>chunks. char_chunk_text ''Aaaa. Bbbbbbbbb'' 3 8 2 = Some chunks)
   \<and> (0::int) < int (length (strip ''Aaaa. Bbbbbbbbb''))
   \<and> chunk_cut (strip ''Aaaa. Bbbbbbbbb'') 3 8 0 = (8, ''Aaaa. Bb'')
   \<and> (8::int) < int (length (strip ''Aaaa. Bbbbbbbbb''))
   \<and> (0::int) < max 0 (8 - 2)
   \<and> (12::int) < int (length (strip ''Aaaa. Bbbbbbbbb''))
   \<and> chunk_cut (strip ''Aaaa. Bbbbbbbbb'') 3 8 12 = (15, ''bbb'')
   \<and> int (length (strip ''Aaaa. Bbbbbbbbb'')) \<le> 15
   \<and> chunk_loop (strip ''Aaaa. Bbbbbbbbb'') 3 8 2 12 [''Aaaa. Bb'', ''Bbbbbbbb'']
        = Some ([''Aaaa. Bb'', ''Bbbbbbbb''] @ [''bbb''])"
proof -
  have d: "CHUNK_OVERLAP < CHUNK_MAX" by (simp add: CHUNK_MAX_def CHUNK_OVERLAP_def)
  have h: "(2::int) < 8" by simp
  have c: "(0::int) \<le> 0 \<and> (0::int) < int (length (strip ''Aaaa. Bbbbbbbbb''))
             \<and> chunk_cut (strip ''Aaaa. Bbbbbbbbb'') 3 8 0 = (8, ''Aaaa. Bb'')
             \<and> (8::int) < int (length (strip ''Aaaa. Bbbbbbbbb''))"
    by code_simp
  have l: "(12::int) < int (length (strip ''Aaaa. Bbbbbbbbb''))
             \<and> chunk_cut (strip ''Aaaa. Bbbbbbbbb'') 3 8 12 = (15, ''bbb'')
             \<and> int (length (strip ''Aaaa. Bbbbbbbbb'')) \<le> 15"
    by code_simp
  note t = char_chunk_text_terminates [OF h, of "''Aaaa. Bbbbbbbbb''" 3]
  from t c have "(0::int) < max 0 (8 - 2)" by blast
  moreover from t l
  have "chunk_loop (strip ''Aaaa. Bbbbbbbbb'') 3 8 2 12 [''Aaaa. Bb'', ''Bbbbbbbb'']
          = Some ([''Aaaa. Bb'', ''Bbbbbbbb''] @ [''bbb''])" by blast
  moreover from t
  have "\<exists>chunks. char_chunk_text ''Aaaa. Bbbbbbbbb'' 3 8 2 = Some chunks" by blast
  moreover from char_chunk_text_terminates [OF d, of "''Aaaa. Bbbbbbbbb''" CHUNK_MIN]
  have "\<exists>chunks. char_chunk_text ''Aaaa. Bbbbbbbbb'' CHUNK_MIN CHUNK_MAX CHUNK_OVERLAP = Some chunks"
    by blast
  ultimately show ?thesis using d h c l by blast
qed

subsection \<open>Chunk identifiers\<close>

lemma digits_val_snoc: "digits_val (s @ [c]) = 10 * digits_val s + (of_char c - 48)"
  by (simp add: digits_val_def)

lemma digit_char_val: "d < 10 \<Longrightarrow> (of_char (digit_char d) :: nat) - 48 = d"
  by (simp add: digit_char_def)

lemma digits_val_str_nat: "digits_val (str_nat n) = n"
proof (induction n rule: str_nat.induct)
  case (1 n)
  show ?case
  proof (cases "n < 10")
    case True
    then show ?thesis
      by (subst str_nat.simps) (simp add: digits_val_def digit_char_val)
  next
    case False
    with 1 have "digits_val (str_nat (n div 10)) = n div 10" by simp
    with False show ?thesis
      by (subst str_nat.simps) (simp add: digits_val_snoc digit_char_val)
  qed
qed

lemma str_nat_inj: "str_nat a = str_nat b \<Longrightarrow> a = b"
  using digits_val_str_nat [of a] digits_val_str_nat [of b] by simp

lemma chunk_id_of_inj: "0 \<le> i \<Longrightarrow> 0 \<le> j \<Longrightarrow> chunk_id_of i = chunk_id_of j \<Longrightarrow> i = j"
  using str_nat_inj [of "nat i" "nat j"] by (simp add: chunk_id_of_def str_int_def)

lemma ids_from_Suc: "ids_from cid (Suc k) = chunk_id_of cid # ids_from (cid + 1) k"
  unfolding ids_from_def map_upt_Suc by (simp add: add.assoc)

lemma ids_from_add: "ids_from cid (a + b) = ids_from cid a @ ids_from (cid + int a) b"
proof (induction a arbitrary: cid)
  case 0
  show ?case by (simp add: ids_from_def)
next
  case (Suc a)
  have "ids_from cid (Suc a + b) = chunk_id_of cid # ids_from (cid + 1) (a + b)"
    using ids_from_Suc [of cid "a + b"] by simp
  also have "\<dots> = chunk_id_of cid # ids_from (cid + 1) a @ ids_from (cid + 1 + int a) b"
    by (simp only: Suc.IH)
  also have "\<dots> = ids_from cid (Suc a) @ ids_from (cid + int (Suc a)) b"
    by (simp add: ids_from_Suc add.commute add.left_commute)
  finally show ?case .
qed

lemma distinct_ids_from: "0 \<le> cid \<Longrightarrow> distinct (ids_from cid k)"
proof -
  assume c: "0 \<le> cid"
  have "inj_on (\<lambda>j. chunk_id_of (cid + int j)) (set [0..<k])"
  proof (rule inj_onI)
    fix a b assume "chunk_id_of (cid + int a) = chunk_id_of (cid + int b)"
    moreover have "0 \<le> cid + int a" "0 \<le> cid + int b" using c by simp_all
    ultimately have "cid + int a = cid + int b" by (intro chunk_id_of_inj)
    then show "a = b" by simp
  qed
  then show ?thesis unfolding ids_from_def by (simp add: distinct_map)
qed

lemma build_chunk_metadata_id:
  "build_chunk_metadata source page cid = Inr m \<Longrightarrow> m ''chunk_id'' = chunk_id_of cid"
  by (auto simp: build_chunk_metadata_def chunk_id_of_def Let_def split: pyval.splits option.splits)

lemma attach_chunks_ids:
  "attach_chunks chs base cid chunks = Inr (cid', chunks') \<Longrightarrow>
     cid' = cid + int (length chs)
     \<and> (\<exists>new. chunks' = chunks @ new \<and> length new = length chs
            \<and> chunk_ids new = ids_from cid (length chs))"
proof (induction chs arbitrary: cid chunks)
  case Nil
  then show ?case by (simp add: ids_from_def chunk_ids_def)
next
  case (Cons ch chs)
  from Cons.prems obtain m where
    m: "build_chunk_metadata (dict_get base ''source'' (PStr ''unknown'')) (base ''page'') cid = Inr m"
    and rest: "attach_chunks chs base (cid + 1)
                 (chunks @ [\<lparr>chunk_text = ch, chunk_metadata = base ++ m\<rparr>]) = Inr (cid', chunks')"
    by (auto split: sum.splits)
  let ?c = "\<lparr>chunk_text = ch, chunk_metadata = base ++ m\<rparr>"
  from Cons.IH [OF rest] obtain new where
    c: "cid' = cid + 1 + int (length chs)" and n: "chunks' = (chunks @ [?c]) @ new"
    and l: "length new = length chs" and i: "chunk_ids new = ids_from (cid + 1) (length chs)"
    by blast
  have "chunk_ids [?c] = [chunk_id_of cid]"
    using build_chunk_metadata_id [OF m] by (simp add: chunk_ids_def map_add_def chunk_id_of_def)
  then have "chunk_ids (?c # new) = ids_from cid (length (ch # chs))"
    using i by (simp add: ids_from_Suc chunk_ids_def)
  moreover have "chunks' = chunks @ (?c # new)" using n by simp
  moreover have "length (?c # new) = length (ch # chs)" using l by simp
  ultimately show ?case using c by (intro conjI exI [of _ "?c # new"]) simp_all
qed

lemma chunk_ids_append: "chunk_ids (xs @ ys) = chunk_ids xs @ chunk_ids ys"
  by (simp add: chunk_ids_def)

lemma length_chunk_ids: "length (chunk_ids xs) = length xs"
  by (simp add: chunk_ids_def)

lemma chunk_records_loop_ids:
  "chunk_records_loop rs cid chunks = Some (Inr chunks') \<Longrightarrow>
     \<exists>new. chunks' = chunks @ new \<and> chunk_ids new = ids_from cid (length new)"
proof (induction rs arbitrary: cid chunks)
  case Nil
  then show ?case by (simp add: ids_from_def chunk_ids_def)
next
  case (Cons r rs)
  from Cons.prems obtain chs cid1 chunks1 where
    a: "attach_chunks chs (case rec_metadata r of None \<Rightarrow> Map.empty | Some m \<Rightarrow> m) cid chunks
          = Inr (cid1, chunks1)"
    and rest: "chunk_records_loop rs cid1 chunks1 = Some (Inr chunks')"
    by (auto split: option.splits sum.splits)
  from attach_chunks_ids [OF a] obtain new1 where
    c1: "cid1 = cid + int (length chs)" and n1: "chunks1 = chunks @ new1"
    and l1: "length new1 = length chs" and i1: "chunk_ids new1 = ids_from cid (length chs)"
    by blast
  from Cons.IH [OF rest] obtain new2 where
    n2: "chunks' = chunks1 @ new2" and i2: "chunk_ids new2 = ids_from cid1 (length new2)"
    by blast
  have "chunk_ids (new1 @ new2) = ids_from cid (length (new1 @ new2))"
    using i1 i2 c1 l1 by (simp add: chunk_ids_append ids_from_add)
  moreover have "chunks' = chunks @ (new1 @ new2)" using n1 n2 by simp
  ultimately show ?case by blast
qed

lemma chunk_records_ids:
  assumes "chunk_records records = Some (Inr chunks)"
  shows "chunk_ids chunks = ids_from 1 (length chunks)"
  using chunk_records_loop_ids [OF assms [unfolded chunk_records_def]] by simp

lemma ingest_loop_files:
  "ingest_loop e paths all_chunks = Some (Inr chunks) \<Longrightarrow>
     \<exists>css. chunks = all_chunks @ concat css \<and> length css = length paths
        \<and> (\<forall>k<length paths. \<exists>records. parse_file e (paths ! k) = Inr records
               \<and> chunk_records records = Some (Inr (css ! k)))"
proof (induction paths arbitrary: all_chunks)
  case Nil
  then show ?case by simp
next
  case (Cons p ps)
  from Cons.prems obtain records cs where
    pf: "parse_file e p = Inr records" and cr: "chunk_records records = Some (Inr cs)"
    and rest: "ingest_loop e ps (all_chunks @ cs) = Some (Inr chunks)"
    by (auto split: option.splits sum.splits)
  from Cons.IH [OF rest] obtain css where
    c: "chunks = (all_chunks @ cs) @ concat css" and l: "length css = length ps"
    and f: "\<forall>k<length ps. \<exists>records. parse_file e (ps ! k) = Inr records
               \<and> chunk_records records = Some (Inr (css ! k))"
    by blast
  have "\<forall>k<length (p # ps). \<exists>records. parse_file e ((p # ps) ! k) = Inr records
               \<and> chunk_records records = Some (Inr ((cs # css) ! k))"
    using pf cr f by (auto simp: nth_Cons split: nat.splits)
  moreover have "chunks = all_chunks @ concat (cs # css)" using c by simp
  moreover have "length (cs # css) = length (p # ps)" using l by simp
  ultimately show ?case by blast
qed

subsection \<open>The claim about chunk identifiers\<close>

text \<open>
  Claim C1 as stated, that the \<open>chunk_id\<close> values of one \<open>ingest(paths)\<close> call have no
  duplicates, fails on two text files: \<open>ingest\<close> calls \<open>chunk_records\<close> once for each file,
  and \<open>chunk_records\<close> starts its counter at 1 each time, so both files have a chunk
  \<open>chunk_1\<close>.
\<close>

theorem chunk_id_repeats_across_files:
  "ingest_chunk_ids two_files [''./uploads/a.txt'', ''./uploads/b.txt'']
     = Some (Inr [Some (PStr ''chunk_1''), Some (PStr ''chunk_1'')])
   \<and> \<not> distinct [Some (PStr ''chunk_1''), Some (PStr ''chunk_1'')]"
  by code_simp

text \<open>
  Claim C1, amended: the counter is global across one \<open>chunk_records\<close> call, that is across
  all the records of one file, and starts again at 1 for the next file. The chunks of an
  ingestion are the chunks of its files one after the other, and the \<open>chunk_id\<close> values of
  each file are \<open>chunk_1\<close>, \<open>chunk_2\<close>, ... in order, with no duplicates.
\<close>

theorem chunk_ids_unique_per_file:
  assumes "ingest e paths = Some (Inr chunks)"
  shows "\<exists>css. chunks = concat css \<and> length css = length paths
           \<and> (\<forall>k<length paths. \<exists>records. parse_file e (paths ! k) = Inr records
                  \<and> chunk_records records = Some (Inr (css ! k)))
           \<and> (\<forall>cs\<in>set css.
                  chunk_ids cs = map (\<lambda>j. chunk_id_of (1 + int j)) [0..<length cs]
                  \<and> distinct (chunk_ids cs))"
proof -
  from ingest_loop_files [OF assms [unfolded ingest_def]] obtain css where
    c: "chunks = concat css" and l: "length css = length paths"
    and f: "\<forall>k<length paths. \<exists>records. parse_file e (paths ! k) = Inr records
               \<and> chunk_records records = Some (Inr (css ! k))"
    by auto
  have "chunk_ids cs = map (\<lambda>j. chunk_id_of (1 + int j)) [0..<length cs] \<and> distinct (chunk_ids cs)"
    if "cs \<in> set css" for cs
  proof -
    from that obtain k where "k < length css" "cs = css ! k" by (auto simp: in_set_conv_nth)
    with f l obtain records where "chunk_records records = Some (Inr cs)" by auto
    then have "chunk_ids cs = ids_from 1 (length cs)" by (rule chunk_records_ids)
    moreover have "distinct (ids_from 1 (length cs))" by (rule distinct_ids_from) simp
    ultimately show ?thesis by (simp add: ids_from_def)
  qed
  with c l f show ?thesis by blast
qed

lemma map_sum_eq_Inr: "map_sum f g y = Inr z \<Longrightarrow> \<exists>b. y = Inr b"
  by (cases y) auto

theorem chunk_ids_unique_per_file_witness:
  "\<exists>chunks. ingest two_files [''./uploads/a.txt'', ''./uploads/b.txt''] = Some (Inr chunks)
     \<and> (\<exists>css. chunks = concat css \<and> length css = 2
           \<and> (\<forall>cs\<in>set css.
                  chunk_ids cs = map (\<lambda>j. chunk_id_of (1 + int j)) [0..<length cs]
                  \<and> distinct (chunk_ids cs)))"
proof -
  have "ingest_chunk_ids two_files [''./uploads/a.txt'', ''./uploads/b.txt'']
          = Some (Inr [chunk_id_of 1, chunk_id_of 1])"
    by code_simp
  then obtain chunks where
    h: "ingest two_files [''./uploads/a.txt'', ''./uploads/b.txt''] = Some (Inr chunks)"
    unfolding ingest_chunk_ids_def by (auto dest: map_sum_eq_Inr)
  from chunk_ids_unique_per_file [OF h] show ?thesis using h by auto
qed

subsection \<open>Citation tags\<close>

lemma remdups_snoc: "remdups (ys @ [x]) = filter (\<lambda>y. y \<noteq> x) (remdups ys) @ [x]"
  by (induction ys) auto

lemma dedup_first_Nil: "dedup_first [] = []"
  by (simp add: dedup_first_def)

lemma dedup_first_Cons: "dedup_first (x # xs) = x # filter (\<lambda>y. y \<noteq> x) (dedup_first xs)"
  by (simp add: dedup_first_def remdups_snoc rev_filter)

lemma set_dedup_first: "set (dedup_first xs) = set xs"
  by (simp add: dedup_first_def)

lemma distinct_dedup_first: "distinct (dedup_first xs)"
  by (simp add: dedup_first_def)

lemma join_citations_loop_dedup:
  "join_citations_loop ms uniq (set uniq)
     = uniq @ filter (\<lambda>c. c \<notin> set uniq) (dedup_first (map format_citation ms))"
proof (induction ms arbitrary: uniq)
  case Nil
  show ?case by (simp add: dedup_first_Nil)
next
  case (Cons m ms)
  let ?c = "format_citation m"
  let ?D = "dedup_first (map format_citation ms)"
  show ?case
  proof (cases "?c \<in> set uniq")
    case True
    then have "filter (\<lambda>c. c \<notin> set uniq) (filter (\<lambda>y. y \<noteq> ?c) ?D) = filter (\<lambda>c. c \<notin> set uniq) ?D"
      by (auto intro: filter_cong)
    with True Cons.IH [of uniq] show ?thesis by (simp add: dedup_first_Cons Let_def)
  next
    case False
    have "join_citations_loop (m # ms) uniq (set uniq)
            = join_citations_loop ms (uniq @ [?c]) (set (uniq @ [?c]))"
      using False by (simp add: Let_def)
    also have "\<dots> = (uniq @ [?c]) @ filter (\<lambda>c. c \<notin> set (uniq @ [?c])) ?D"
      by (rule Cons.IH)
    also have "filter (\<lambda>c. c \<notin> set (uniq @ [?c])) ?D
                 = filter (\<lambda>c. c \<notin> set uniq) (filter (\<lambda>y. y \<noteq> ?c) ?D)"
      by (auto intro: filter_cong)
    finally show ?thesis using False by (simp add: dedup_first_Cons)
  qed
qed

lemma join_citations_dedup:
  "join_citations ms = join '' '' (dedup_first (map format_citation ms))"
  using join_citations_loop_dedup [of ms "[]"] by (simp add: join_citations_def)

lemma dedup_first_replicate: "dedup_first (replicate (Suc n) c) = [c]"
proof -
  have "set (dedup_first (replicate n c)) \<subseteq> {c}" by (auto simp: set_dedup_first)
  then have "filter (\<lambda>y. y \<noteq> c) (dedup_first (replicate n c)) = []"
    by (auto simp: filter_empty_conv)
  then show ?thesis by (simp add: dedup_first_Cons)
qed

subsection \<open>The claim about citation tags\<close>

text \<open>
  Claim C6: \<open>format_citation\<close> returns \<open>[source p.page chunk_id]\<close> when the metadata has a
  page and \<open>[source chunk_id]\<close> otherwise (with \<open>unknown\<close> and \<open>chunk_?\<close> for a missing source
  or identifier); \<open>join_citations\<close> joins with spaces the tags with duplicates removed, each
  at the place of its first occurrence; and a list that repeats one metadata yields its tag
  once.
\<close>

theorem citation_tags_format_and_dedup:
  "(\<forall>p. meta ''page'' = Some p \<longrightarrow>
      format_citation meta =
        ''['' @ py_str (dict_get meta ''source'' (PStr ''unknown'')) @ '' p.'' @ py_str p
          @ '' '' @ py_str (dict_get meta ''chunk_id'' (PStr ''chunk_?'')) @ '']'')
   \<and> (meta ''page'' = None \<longrightarrow>
      format_citation meta =
        ''['' @ py_str (dict_get meta ''source'' (PStr ''unknown''))
          @ '' '' @ py_str (dict_get meta ''chunk_id'' (PStr ''chunk_?'')) @ '']'')
   \<and> join_citations metadatas = join '' '' (dedup_first (map format_citation metadatas))
   \<and> distinct (dedup_first (map format_citation metadatas))
   \<and> set (dedup_first (map format_citation metadatas)) = format_citation ` set metadatas
   \<and> join_citations (replicate (Suc n) meta) = format_citation meta"
proof (intro conjI allI impI)
  fix p assume "meta ''page'' = Some p"
  then show "format_citation meta =
        ''['' @ py_str (dict_get meta ''source'' (PStr ''unknown'')) @ '' p.'' @ py_str p
          @ '' '' @ py_str (dict_get meta ''chunk_id'' (PStr ''chunk_?'')) @ '']''"
    by (simp add: format_citation_def)
next
  assume "meta ''page'' = None"
  then show "format_citation meta =
        ''['' @ py_str (dict_get meta ''source'' (PStr ''unknown''))
          @ '' '' @ py_str (dict_get meta ''chunk_id'' (PStr ''chunk_?'')) @ '']''"
    by (simp add: format_citation_def)
next
  show "join_citations metadatas = join '' '' (dedup_first (map format_citation metadatas))"
    by (rule join_citations_dedup)
next
  show "distinct (dedup_first (map format_citation metadatas))"
    by (rule distinct_dedup_first)
next
  show "set (dedup_first (map format_citation metadatas)) = format_citation ` set metadatas"
    by (simp add: set_dedup_first)
next
  show "join_citations (replicate (Suc n) meta) = format_citation meta"
    unfolding join_citations_dedup map_replicate dedup_first_replicate by simp
qed

theorem citation_tags_format_and_dedup_witness:
  "meta_paged ''page'' = Some (PInt 3)
   \<and> format_citation meta_paged = ''[a.pdf p.3 chunk_7]''
   \<and> meta_plain ''page'' = None
   \<and> format_citation meta_plain = ''[b.txt chunk_1]''
   \<and> join_citations [meta_paged, meta_plain, meta_paged] = ''[a.pdf p.3 chunk_7] [b.txt chunk_1]''
   \<and> join_citations (replicate 3 meta_paged) = ''[a.pdf p.3 chunk_7]''"
proof -
  have p: "meta_paged ''page'' = Some (PInt 3)" "meta_plain ''page'' = None"
    by (simp_all add: meta_paged_def meta_plain_def)
  have v: "py_str (dict_get meta_paged ''source'' (PStr ''unknown'')) = ''a.pdf''"
    "py_str (dict_get meta_paged ''chunk_id'' (PStr ''chunk_?'')) = ''chunk_7''"
    "py_str (dict_get meta_plain ''source'' (PStr ''unknown'')) = ''b.txt''"
    "py_str (dict_get meta_plain ''chunk_id'' (PStr ''chunk_?'')) = ''chunk_1''"
    "py_str (PInt 3) = ''3''"
    by code_simp+
  have r: "replicate 3 meta_paged = replicate (Suc 2) meta_paged" by (simp add: numeral_3_eq_3)
  from citation_tags_format_and_dedup [of meta_paged "[meta_paged, meta_plain, meta_paged]" 2]
    citation_tags_format_and_dedup [of meta_plain "[]" 0]
  show ?thesis
    unfolding r using p v by (simp add: dedup_first_Cons dedup_first_Nil)
qed

subsection \<open>The topical guard\<close>

lemma dropWhile_keeps_sub:
  "sub \<noteq> [] \<Longrightarrow> \<not> P (hd sub) \<Longrightarrow> \<exists>xs'. dropWhile P (xs @ sub @ ys) = xs' @ sub @ ys"
proof (induction xs)
  case Nil
  then have "dropWhile P (sub @ ys) = sub @ ys" by (cases sub) simp_all
  then show ?case by (intro exI [of _ "[]"]) simp
next
  case (Cons x xs)
  show ?case
  proof (cases "P x")
    case True
    with Cons show ?thesis by simp
  next
    case False
    then show ?thesis by (intro exI [of _ "x # xs"]) simp
  qed
qed

lemma sublist_strip:
  assumes "sub \<noteq> []" "\<not> is_space (hd sub)" "\<not> is_space (last sub)" "sublist sub q"
  shows "sublist sub (strip q)"
proof -
  from assms(4) obtain xs ys where q: "q = xs @ sub @ ys" by (auto simp: sublist_def)
  from dropWhile_keeps_sub [of sub is_space xs ys] assms(1,2) obtain xs' where
    l: "dropWhile is_space q = xs' @ sub @ ys" unfolding q by blast
  have "rev sub \<noteq> []" "\<not> is_space (hd (rev sub))"
    using assms(1,3) by (simp_all add: hd_rev)
  with dropWhile_keeps_sub [of "rev sub" is_space "rev ys" "rev xs'"] obtain ys' where
    "dropWhile is_space (rev ys @ rev sub @ rev xs') = ys' @ rev sub @ rev xs'" by blast
  then have "strip q = xs' @ sub @ rev ys'" by (simp add: strip_def l)
  then show ?thesis by (auto simp: sublist_def)
qed

lemma sublist_lower: "sublist sub q \<Longrightarrow> sublist (lower sub) (lower q)"
proof -
  assume "sublist sub q"
  then obtain ps ss where "q = ps @ sub @ ss" by (auto simp: sublist_def)
  then have "lower q = lower ps @ lower sub @ lower ss" by (simp add: lower_def)
  then show ?thesis unfolding sublist_def by blast
qed

lemma allow_tokens_shape:
  "\<forall>g\<in>set (greetings @ assistant_phrases).
     g \<noteq> [] \<and> \<not> is_space (hd g) \<and> \<not> is_space (last g) \<and> lower g = g"
  by code_simp

lemma allow_token_in_q:
  assumes g: "g \<in> set greetings \<union> set assistant_phrases"
    and s: "str_in g question \<or> str_in g (lower question)"
  shows "str_in g (strip (lower question))"
proof -
  from g allow_tokens_shape have sh: "g \<noteq> []" "\<not> is_space (hd g)" "\<not> is_space (last g)"
    and lw: "lower g = g" by auto
  from s have "sublist g (lower question)"
    using sublist_lower [of g question] lw by (auto simp: str_in_def)
  with sh show ?thesis unfolding str_in_def by (intro sublist_strip)
qed

lemma allow_token_passes:
  assumes "g \<in> set greetings \<union> set assistant_phrases"
    and "str_in g question \<or> str_in g (lower question)"
  shows "\<not> guard_unrelated question"
proof -
  from allow_token_in_q [OF assms] have "str_in g (strip (lower question))" .
  with assms(1) have "list_ex (\<lambda>t. str_in t (strip (lower question))) greetings
      \<or> list_ex (\<lambda>t. str_in t (strip (lower question))) assistant_phrases"
    by (auto simp: list_ex_iff)
  then show ?thesis by (auto simp: guard_unrelated_def Let_def)
qed

subsection \<open>The claims about the topical guard\<close>

text \<open>
  Claim C5: the allow-list wins over the blocked patterns. A question that contains a
  greeting or a phrase about the assistant, in any letter case, is classified as on-topic;
  in particular \<open>hi, what's the weather\<close>, which a blocked pattern matches, is let through.
\<close>

theorem allow_list_precedence:
  "(\<forall>g\<in>set greetings \<union> set assistant_phrases.
      str_in g question \<or> str_in g (lower question) \<longrightarrow> \<not> guard_unrelated question)
   \<and> matches_unrelated (strip (lower ''hi, what's the weather''))
   \<and> \<not> guard_unrelated ''hi, what's the weather''"
proof (intro conjI ballI impI)
  fix g assume "g \<in> set greetings \<union> set assistant_phrases"
    and "str_in g question \<or> str_in g (lower question)"
  then show "\<not> guard_unrelated question" by (rule allow_token_passes)
next
  show "matches_unrelated (strip (lower ''hi, what's the weather''))" by code_simp
next
  show "\<not> guard_unrelated ''hi, what's the weather''" by code_simp
qed

theorem allow_list_precedence_witness:
  "''help'' \<in> set greetings \<union> set assistant_phrases
   \<and> str_in ''help'' (lower ''HELP me cook food'')
   \<and> matches_unrelated (strip (lower ''HELP me cook food''))
   \<and> \<not> guard_unrelated ''HELP me cook food''"
proof -
  have h: "''help'' \<in> set greetings \<union> set assistant_phrases"
    "str_in ''help'' (lower ''HELP me cook food'')"
    "matches_unrelated (strip (lower ''HELP me cook food''))"
    by code_simp+
  from allow_list_precedence [of "''HELP me cook food''"] h show ?thesis by blast
qed

text \<open>
  Claim C10: the allow-list tokens are tested as substrings, not as words. Every question
  with \<open>hi\<close> somewhere in it is on-topic, whatever blocked pattern it matches: \<open>this weather
  report\<close> and \<open>shipping news\<close> pass, though \<open>news\<close> alone is blocked.
\<close>

theorem hi_substring_passes:
  "(str_in ''hi'' question \<or> str_in ''hi'' (lower question) \<longrightarrow> \<not> guard_unrelated question)
   \<and> matches_unrelated (strip (lower ''this weather report''))
   \<and> \<not> guard_unrelated ''this weather report''
   \<and> guard_unrelated ''news''
   \<and> \<not> guard_unrelated ''shipping news''"
proof (intro conjI impI)
  assume "str_in ''hi'' question \<or> str_in ''hi'' (lower question)"
  moreover have "''hi'' \<in> set greetings \<union> set assistant_phrases" by (simp add: greetings_def)
  ultimately show "\<not> guard_unrelated question" by (intro allow_token_passes)
next
  show "matches_unrelated (strip (lower ''this weather report''))" by code_simp
next
  show "\<not> guard_unrelated ''this weather report''" by code_simp
next
  show "guard_unrelated ''news''" by code_simp
next
  show "\<not> guard_unrelated ''shipping news''" by code_simp
qed

theorem hi_substring_passes_witness:
  "str_in ''hi'' ''Which movies are playing?''
   \<and> matches_unrelated (strip (lower ''Which movies are playing?''))
   \<and> \<not> guard_unrelated ''Which movies are playing?''"
proof -
  have h: "str_in ''hi'' ''Which movies are playing?''"
    "matches_unrelated (strip (lower ''Which movies are playing?''))"
    by code_simp+
  from hi_substring_passes [of "''Which movies are playing?''"] h show ?thesis by blast
qed

subsection \<open>The summary chain\<close>



subsection \<open>The claim about the summary chain\<close>



subsection \<open>Answering before any ingestion\<close>

lemma ensure_chains_builds_qa:
  "ensure_chains b st = (st1, None) \<Longrightarrow> qa_chain st1 \<noteq> None"
  by (auto simp: ensure_chains_def split: option.splits sum.splits)

subsection \<open>The claim about a question before any ingestion\<close>

text \<open>
  Claim C7: a question asked before any ingestion is to get the \<open>no_index_reply\<close> without
  retrieval or the model being called. The code does not: \<open>ensure_chains\<close> builds the chain
  whenever it is missing, whether or not anything was indexed, so after it returns
  \<open>qa_chain\<close> is never \<open>None\<close> (\<open>ensure_chains_builds_qa\<close>) and the branch with the reply
  cannot be taken. On a first start the question below is streamed through the chain.
\<close>

theorem question_before_ingestion_reaches_chain:
  "fst (stream_answer working_builders fresh_state ''What are the payment terms?'' []) =
     [ [(''user'', ''What are the payment terms?''), (''assistant'', [])],
      [(''user'', ''What are the payment terms?''), (''assistant'', ''I don't '')],
      [(''user'', ''What are the payment terms?''), (''assistant'', ''I don't know.'')] ]"
  by code_simp

end
